theory Spec2Isabelle
  imports Complex_Main "HOL-Library.Word"
begin

section \<open>Conventions of the embedding\<close>

text \<open>
  The development embeds \<^verbatim>\<open>src/audio-filter.cpp\<close>.

  \<^item> \<^verbatim>\<open>uint32_t\<close> is \<open>32 word\<close>, \<^verbatim>\<open>uint64_t\<close> and \<^verbatim>\<open>size_t\<close> are \<open>64 word\<close>:
    addition, subtraction and multiplication wrap as in C.
  \<^item> A \<^verbatim>\<open>float\<close> sample is a \<open>real\<close>, a finite value. The high-pass filter, the voice
    activity detection and the mean of the token probabilities round every operation
    to binary32 (\<open>binary32\<close> below); the sums and quotients of the word-boundary check
    are exact. The quotients the code computes are values of the type \<open>f32\<close> below,
    which keeps apart what a division by zero gives: NaN for \<open>0 / 0\<close>.
  \<^item> \<^verbatim>\<open>struct circlebuf\<close> (libobs, \<^verbatim>\<open>util/circlebuf.h\<close>) is a FIFO queue: a list whose
    head is the front. A queue of floats of length \<open>n\<close> has byte size \<open>4 * n\<close>.
  \<^item> An access outside an array, a pop of more bytes than a queue holds, and an integer
    division by zero are values of the type \<open>fault\<close>: a function that can commit one
    returns \<open>fault + 'a\<close>. \<open>Float_not_finite\<close> is not a fault of the code: it marks
    the one place where a filter coefficient is not a finite number, which a list of
    reals cannot follow.
\<close>

datatype fault =
  Circlebuf_underflow
  | Copy_buffer_out_of_bounds
  | Channel_out_of_bounds
  | Pcm_out_of_bounds
  | Division_by_zero
  | Float_not_finite

type_synonym u32 = "32 word"
type_synonym u64 = "64 word"

section \<open>Data model\<close>

text \<open>\<^verbatim>\<open>struct cleanstream_audio_info { uint32_t frames; uint64_t timestamp; }\<close>. The
  fields carry the prefix \<open>info_\<close> because \<^verbatim>\<open>struct cleanstream_data\<close> has a field \<^verbatim>\<open>frames\<close>
  of its own.\<close>

record cleanstream_audio_info =
  info_frames :: u32
  info_timestamp :: u64

text \<open>
  The fields of \<^verbatim>\<open>struct cleanstream_data\<close> that the audio path reads and writes. The
  three buffer arrays are indexed by channel; \<open>copy_buffers ! c\<close> is the slice of
  \<open>frames\<close> floats that \<^verbatim>\<open>cleanstream_update\<close> allocates for channel \<open>c\<close>.
\<close>

record cleanstream_data =
  channels :: nat
  sample_rate :: u32
  frames :: u64
  overlap_frames :: u64
  overlap_ms :: u64
  last_num_frames :: u64
  copy_buffers :: "real list list"
  info_buffer :: "cleanstream_audio_info list"
  info_out_buffer :: "cleanstream_audio_info list"
  input_buffers :: "real list list"
  output_buffers :: "real list list"

text \<open>\<^verbatim>\<open>struct obs_audio_data\<close>: one packet of the host, planar float samples.\<close>

record obs_audio_data =
  audio_data :: "real list list"
  audio_frames :: u32
  audio_timestamp :: u64

section \<open>The circular buffer\<close>

text \<open>\<^verbatim>\<open>x * sizeof(float)\<close> in \<^verbatim>\<open>size_t\<close>, and the number of floats in a byte count.\<close>

definition float_bytes :: "u64 \<Rightarrow> u64" where
  "float_bytes n = n * 4"

definition floats_in :: "u64 \<Rightarrow> nat" where
  "floats_in b = unat b div 4"

definition circlebuf_size :: "real list \<Rightarrow> nat" where
  "circlebuf_size cb = 4 * length cb"

definition circlebuf_push_back :: "'a list \<Rightarrow> 'a list \<Rightarrow> 'a list" where
  "circlebuf_push_back cb xs = cb @ xs"

text \<open>\<^verbatim>\<open>circlebuf_pop_front(cb, data, size)\<close>: the popped floats and the rest of the queue.\<close>

definition circlebuf_pop_front :: "real list \<Rightarrow> u64 \<Rightarrow> fault + (real list \<times> real list)" where
  "circlebuf_pop_front cb nbytes =
     (if floats_in nbytes \<le> length cb
      then Inr (take (floats_in nbytes) cb, drop (floats_in nbytes) cb)
      else Inl Circlebuf_underflow)"

text \<open>\<^verbatim>\<open>for (size_t c = 0; c < gf->channels; c++) body\<close>, started at \<open>c\<close> with \<open>k\<close> rounds to go.\<close>

fun for_channels :: "(nat \<Rightarrow> 's \<Rightarrow> fault + 's) \<Rightarrow> nat \<Rightarrow> nat \<Rightarrow> 's \<Rightarrow> fault + 's" where
  "for_channels body c 0 s = Inr s"
| "for_channels body c (Suc k) s =
     (case body c s of
        Inl e \<Rightarrow> Inl e
      | Inr s' \<Rightarrow> for_channels body (Suc c) k s')"

section \<open>The producer: \<^verbatim>\<open>cleanstream_filter_audio\<close>, lines 643 to 656\<close>

definition push_channel :: "obs_audio_data \<Rightarrow> nat \<Rightarrow> cleanstream_data \<Rightarrow> fault + cleanstream_data" where
  "push_channel audio c gf =
     (if c < length (input_buffers gf) \<and> c < length (audio_data audio) then
        (if floats_in (float_bytes (ucast (audio_frames audio))) \<le> length (audio_data audio ! c)
         then Inr (gf\<lparr>input_buffers := (input_buffers gf)
                 [c := circlebuf_push_back (input_buffers gf ! c)
                         (take (floats_in (float_bytes (ucast (audio_frames audio))))
                            (audio_data audio ! c))]\<rparr>)
         else Inl Pcm_out_of_bounds)
      else Inl Channel_out_of_bounds)"

definition cleanstream_filter_audio_push :: "cleanstream_data \<Rightarrow> obs_audio_data \<Rightarrow> fault + cleanstream_data" where
  "cleanstream_filter_audio_push gf audio =
     (case for_channels (push_channel audio) 0 (channels gf) gf of
        Inl e \<Rightarrow> Inl e
      | Inr gf1 \<Rightarrow>
          Inr (gf1\<lparr>info_buffer := circlebuf_push_back (info_buffer gf1)
                 [\<lparr>info_frames = audio_frames audio,
                   info_timestamp = audio_timestamp audio\<rparr>]\<rparr>))"

section \<open>The worker: \<^verbatim>\<open>process_audio_from_buffer\<close>\<close>

text \<open>
  Lines 498 to 512: the loop that pops packet infos. \<open>target\<close> is
  \<^verbatim>\<open>gf->frames - gf->overlap_frames\<close>; the list is \<^verbatim>\<open>gf->info_buffer\<close>; \<open>num\<close> and
  \<open>ts\<close> are \<^verbatim>\<open>num_new_frames_from_infos\<close> and \<^verbatim>\<open>start_timestamp\<close>.
\<close>

fun drain_infos ::
  "u64 \<Rightarrow> cleanstream_audio_info list \<Rightarrow> u32 \<Rightarrow> u64 \<Rightarrow> cleanstream_audio_info list \<times> u32 \<times> u64"
where
  "drain_infos target [] num ts = ([], num, ts)"
| "drain_infos target (info_from_buf # rest) num ts =
     (let num1 = num + info_frames info_from_buf;
          ts1 = (if ts = 0 then info_timestamp info_from_buf else ts)
      in if target \<le> ucast num1
         then (circlebuf_push_back rest [info_from_buf], num1 - info_frames info_from_buf, ts1)
         else drain_infos target rest num1 ts1)"

text \<open>
  Lines 516 to 527 for one channel: the copy buffer and the input queue of the channel
  before, and after. \<^verbatim>\<open>memcpy\<close> reads the bytes as they were before the call.
\<close>

definition assemble_channel ::
  "u64 \<Rightarrow> u64 \<Rightarrow> u32 \<Rightarrow> real list \<Rightarrow> real list \<Rightarrow> fault + (real list \<times> real list)"
where
  "assemble_channel last_n ov num_new copy inp =
     (if 0 < last_n then
        (let cnt = floats_in (float_bytes ov);
             src = unat (last_n - ov)
         in if cnt \<noteq> 0 \<and> \<not> (ov \<le> last_n \<and> src + cnt \<le> length copy)
            then Inl Copy_buffer_out_of_bounds
            else
              (let copy1 = take cnt (drop src copy) @ drop cnt copy;
                   n = floats_in (float_bytes (ucast num_new))
               in case circlebuf_pop_front inp (float_bytes (ucast num_new)) of
                    Inl e \<Rightarrow> Inl e
                  | Inr (xs, inp') \<Rightarrow>
                      if n \<noteq> 0 \<and> length copy < unat ov + n
                      then Inl Copy_buffer_out_of_bounds
                      else Inr (take (unat ov) copy1 @ xs @ drop (unat ov + n) copy1, inp')))
      else
        (let n = floats_in (float_bytes (ucast num_new + ov))
         in case circlebuf_pop_front inp (float_bytes (ucast num_new + ov)) of
              Inl e \<Rightarrow> Inl e
            | Inr (xs, inp') \<Rightarrow>
                if length copy < n then Inl Copy_buffer_out_of_bounds
                else Inr (xs @ drop n copy, inp')))"

definition assemble_body :: "u32 \<Rightarrow> nat \<Rightarrow> cleanstream_data \<Rightarrow> fault + cleanstream_data" where
  "assemble_body num_new c gf =
     (if c < length (copy_buffers gf) \<and> c < length (input_buffers gf) then
        (case assemble_channel (last_num_frames gf) (overlap_frames gf) num_new
                (copy_buffers gf ! c) (input_buffers gf ! c) of
           Inl e \<Rightarrow> Inl e
         | Inr (copy', inp') \<Rightarrow>
             Inr (gf\<lparr>copy_buffers := (copy_buffers gf)[c := copy'],
                     input_buffers := (input_buffers gf)[c := inp']\<rparr>))
      else Inl Channel_out_of_bounds)"

text \<open>Lines 492 to 531: the block under the input lock. It returns the new state with
  \<^verbatim>\<open>num_new_frames_from_infos\<close> and \<^verbatim>\<open>start_timestamp\<close>.\<close>

definition segment_assemble :: "cleanstream_data \<Rightarrow> fault + (cleanstream_data \<times> u32 \<times> u64)" where
  "segment_assemble gf =
     (case drain_infos (frames gf - overlap_frames gf) (info_buffer gf) 0 0 of
        (q, num_new, start_timestamp) \<Rightarrow>
          (case for_channels (assemble_body num_new) 0 (channels gf) (gf\<lparr>info_buffer := q\<rparr>) of
             Inl e \<Rightarrow> Inl e
           | Inr gf1 \<Rightarrow>
               Inr (gf1\<lparr>last_num_frames := ucast num_new + overlap_frames gf1\<rparr>,
                    num_new, start_timestamp)))"

text \<open>Lines 589 to 605: the block under the output lock.\<close>

definition publish_channel :: "u32 \<Rightarrow> nat \<Rightarrow> cleanstream_data \<Rightarrow> fault + cleanstream_data" where
  "publish_channel num_new c gf =
     (if c < length (copy_buffers gf) \<and> c < length (output_buffers gf) then
        (if floats_in (float_bytes (ucast num_new)) \<le> length (copy_buffers gf ! c)
         then Inr (gf\<lparr>output_buffers := (output_buffers gf)
                 [c := circlebuf_push_back (output_buffers gf ! c)
                         (take (floats_in (float_bytes (ucast num_new))) (copy_buffers gf ! c))]\<rparr>)
         else Inl Copy_buffer_out_of_bounds)
      else Inl Channel_out_of_bounds)"

definition publish :: "cleanstream_data \<Rightarrow> u32 \<Rightarrow> u64 \<Rightarrow> fault + cleanstream_data" where
  "publish gf num_new start_timestamp =
     for_channels (publish_channel num_new) 0 (channels gf)
       (gf\<lparr>info_out_buffer := circlebuf_push_back (info_out_buffer gf)
              [\<lparr>info_frames = num_new, info_timestamp = start_timestamp\<rparr>]\<rparr>)"

text \<open>
  Lines 612 to 624, the overlap controller. \<open>duration\<close> is the signed millisecond count
  of the timer; \<open>new_ms\<close> is \<^verbatim>\<open>new_frames_from_infos_ms\<close>. The cap
  \<^verbatim>\<open>(uint64_t)(new_frames_from_infos_ms * 0.75f)\<close> is the truncated product; for
  \<open>new_ms < 2 ^ 22\<close> the conversion to \<^verbatim>\<open>float\<close> and the product are exact, and the cap is
  \<open>3 * new_ms div 4\<close>.
\<close>

definition overlap_cap :: "u32 \<Rightarrow> u64" where
  "overlap_cap new_ms = word_of_nat ((3 * unat new_ms) div 4)"

definition set_overlap :: "cleanstream_data \<Rightarrow> u64 \<Rightarrow> cleanstream_data" where
  "set_overlap gf ms =
     gf\<lparr>overlap_ms := ms, overlap_frames := (ms * ucast (sample_rate gf)) div 1000\<rparr>"

definition adapt_overlap :: "cleanstream_data \<Rightarrow> u32 \<Rightarrow> bool \<Rightarrow> int \<Rightarrow> cleanstream_data" where
  "adapt_overlap gf new_ms skipped_inference duration =
     (if uint new_ms < duration then set_overlap gf (max (overlap_ms gf - 10) 100)
      else if \<not> skipped_inference
        then set_overlap gf (min (overlap_ms gf + 10) (overlap_cap new_ms))
      else gf)"

text \<open>
  The whole cycle. The resampler, the signal gate and the inference engine work on the
  resampler's output and change no field above; of their results the cycle uses
  \<^verbatim>\<open>skipped_inference\<close> and the measured \<^verbatim>\<open>duration\<close>, which are arguments here.
\<close>

definition process_audio_from_buffer :: "cleanstream_data \<Rightarrow> bool \<Rightarrow> int \<Rightarrow> fault + cleanstream_data" where
  "process_audio_from_buffer gf skipped_inference duration =
     (case segment_assemble gf of
        Inl e \<Rightarrow> Inl e
      | Inr (gf1, num_new, start_timestamp) \<Rightarrow>
          if sample_rate gf1 = 0 then Inl Division_by_zero
          else
            (case publish gf1 num_new start_timestamp of
               Inl e \<Rightarrow> Inl e
             | Inr gf2 \<Rightarrow>
                 Inr (adapt_overlap gf2 ((num_new * 1000) div sample_rate gf2)
                        skipped_inference duration)))"

text \<open>The guard of \<^verbatim>\<open>whisper_loop\<close>, lines 464 to 470, under which a cycle is started.\<close>

definition enough_input :: "cleanstream_data \<Rightarrow> bool" where
  "enough_input gf =
     (input_buffers gf \<noteq> [] \<and> unat (float_bytes (frames gf)) \<le> circlebuf_size (input_buffers gf ! 0))"

section \<open>Floating-point arithmetic\<close>

text \<open>
  A finite value of the type \<^verbatim>\<open>float\<close> (binary32) or \<^verbatim>\<open>double\<close> (binary64) is a real.
  An operation of IEEE 754 gives the exact result rounded to the nearest value of the
  format, a tie going to the value with an even significand. \<open>ieee_round p emin x\<close> is
  that rounding for a significand of \<open>p\<close> bits and a least exponent \<open>emin\<close>: \<open>x\<close> is
  divided by the unit in the last place of its binade, \<open>2\<close> to the power
  \<open>e - (p - 1)\<close> with \<open>e = max \<lfloor>log\<^sub>2 \<bar>x\<bar>\<rfloor> emin\<close>, rounded to an integer and multiplied
  back. Below \<open>2\<close> to the power \<open>emin\<close> the unit stays the same: the subnormal numbers.
  The largest finite value is not modelled: where the code's result overflows to an
  infinity, \<open>ieee_round\<close> still gives a real. The theorems that depend on rounding are
  about windows whose samples are bounded, so that no sum overflows.
\<close>

definition round_half_even :: "real \<Rightarrow> int" where
  "round_half_even x =
     (let n = \<lfloor>x\<rfloor>; d = x - of_int n
      in if d < 1 / 2 then n else if 1 / 2 < d then n + 1 else if even n then n else n + 1)"

definition ieee_exponent :: "int \<Rightarrow> real \<Rightarrow> int" where
  "ieee_exponent emin x = max \<lfloor>log 2 \<bar>x\<bar>\<rfloor> emin"

definition ieee_ulp :: "nat \<Rightarrow> int \<Rightarrow> real \<Rightarrow> real" where
  "ieee_ulp p emin x = 2 powr of_int (ieee_exponent emin x - (int p - 1))"

definition ieee_round :: "nat \<Rightarrow> int \<Rightarrow> real \<Rightarrow> real" where
  "ieee_round p emin x =
     (if x = 0 then 0 else of_int (round_half_even (x / ieee_ulp p emin x)) * ieee_ulp p emin x)"

definition binary32 :: "real \<Rightarrow> real" where
  "binary32 = ieee_round 24 (- 126)"



text \<open>
  The code divides an accumulated sum by a count in three places (lines 118, 139, 418).
  When the count is zero the sum is zero too, and IEEE 754 gives the quotient \<open>0 / 0\<close> the
  value NaN, which compares false with everything. \<open>f32\<close> holds the result of such a
  division; \<open>f32_less\<close> is the comparison \<^verbatim>\<open><\<close> of C on it, and \<open>f32_round\<close> rounds a
  finite quotient to binary32.
\<close>

datatype f32 = Fin real | PInf | NInf | NaN

definition f32_div :: "real \<Rightarrow> real \<Rightarrow> f32" where
  "f32_div a b =
     (if b \<noteq> 0 then Fin (a / b)
      else if a = 0 then NaN
      else if 0 < a then PInf else NInf)"

fun f32_less :: "f32 \<Rightarrow> f32 \<Rightarrow> bool" where
  "f32_less (Fin a) (Fin b) = (a < b)"
| "f32_less NaN _ = False"
| "f32_less _ NaN = False"
| "f32_less PInf _ = False"
| "f32_less _ NInf = False"
| "f32_less NInf _ = True"
| "f32_less _ PInf = True"

fun f32_round :: "f32 \<Rightarrow> f32" where
  "f32_round (Fin x) = Fin (binary32 x)"
| "f32_round PInf = PInf"
| "f32_round NInf = NInf"
| "f32_round NaN = NaN"

section \<open>The signal gate\<close>



definition WHISPER_SAMPLE_RATE :: u32 where
  "WHISPER_SAMPLE_RATE = 16000"






text \<open>
  \<^verbatim>\<open>avg_energy_in_window\<close> and \<^verbatim>\<open>max_energy_in_window\<close>, lines 132 to 153. The loops
  read \<^verbatim>\<open>pcmf32[window_i + j]\<close> for \<open>j\<close> below \<^verbatim>\<open>n_samples_window\<close>; \<open>i\<close> is \<open>window_i + j\<close>
  before the 64-bit wrap, \<open>k\<close> the number of rounds to go. The sum and the quotient of a
  sub-window are kept exact here.
\<close>

fun sum_abs_from :: "real list \<Rightarrow> nat \<Rightarrow> nat \<Rightarrow> real \<Rightarrow> fault + real" where
  "sum_abs_from pcmf32 i 0 e = Inr e"
| "sum_abs_from pcmf32 i (Suc k) e =
     (if i mod 2 ^ 64 < length pcmf32
      then sum_abs_from pcmf32 (Suc i) k (e + \<bar>pcmf32 ! (i mod 2 ^ 64)\<bar>)
      else Inl Pcm_out_of_bounds)"

fun max_abs_from :: "real list \<Rightarrow> nat \<Rightarrow> nat \<Rightarrow> real \<Rightarrow> fault + real" where
  "max_abs_from pcmf32 i 0 e = Inr e"
| "max_abs_from pcmf32 i (Suc k) e =
     (if i mod 2 ^ 64 < length pcmf32
      then max_abs_from pcmf32 (Suc i) k (max e \<bar>pcmf32 ! (i mod 2 ^ 64)\<bar>)
      else Inl Pcm_out_of_bounds)"

definition avg_energy_in_window :: "real list \<Rightarrow> u64 \<Rightarrow> u64 \<Rightarrow> fault + f32" where
  "avg_energy_in_window pcmf32 window_i n_samples_window =
     (case sum_abs_from pcmf32 (unat window_i) (unat n_samples_window) 0 of
        Inl e \<Rightarrow> Inl e
      | Inr energy_in_window \<Rightarrow> Inr (f32_div energy_in_window (real (unat n_samples_window))))"

definition max_energy_in_window :: "real list \<Rightarrow> u64 \<Rightarrow> u64 \<Rightarrow> fault + real" where
  "max_energy_in_window pcmf32 window_i n_samples_window =
     max_abs_from pcmf32 (unat window_i) (unat n_samples_window) 0"

text \<open>
  The logging loop of lines 174 to 176. It reads every sub-window it prints, and it never
  ends when \<^verbatim>\<open>n_samples_window\<close> is 0: the result \<open>None\<close> is a run that does not return.
\<close>

partial_function (option) log_windows :: "real list \<Rightarrow> u64 \<Rightarrow> u64 \<Rightarrow> u64 \<Rightarrow> (fault + unit) option" where
  "log_windows pcmf32 n_samples_window bound i =
     (if i < bound then
        (case avg_energy_in_window pcmf32 i n_samples_window of
           Inl e \<Rightarrow> Some (Inl e)
         | Inr _ \<Rightarrow> log_windows pcmf32 n_samples_window bound (i + n_samples_window))
      else Some (Inr ()))"

text \<open>\<^verbatim>\<open>word_boundary_simple\<close>, lines 156 to 188. \<open>thold\<close> scales a finite maximum, so the
  product is finite.\<close>

definition word_boundary_simple :: "real list \<Rightarrow> u64 \<Rightarrow> u32 \<Rightarrow> real \<Rightarrow> (fault + u64) option" where
  "word_boundary_simple pcmf32 pcm32f_size rate thold =
     (let n_samples_window = (ucast ((rate * 50) div 1000) :: u64)
      in case avg_energy_in_window pcmf32 0 n_samples_window of
           Inl e \<Rightarrow> Some (Inl e)
         | Inr first_window_energy \<Rightarrow>
             (case avg_energy_in_window pcmf32 (pcm32f_size - n_samples_window) n_samples_window of
                Inl e \<Rightarrow> Some (Inl e)
              | Inr last_window_energy \<Rightarrow>
                  (case max_energy_in_window pcmf32 n_samples_window
                          (pcm32f_size - n_samples_window) of
                     Inl e \<Rightarrow> Some (Inl e)
                   | Inr max_energy_in_middle \<Rightarrow>
                       (case log_windows pcmf32 n_samples_window
                               (pcm32f_size - n_samples_window) 0 of
                          None \<Rightarrow> None
                        | Some (Inl e) \<Rightarrow> Some (Inl e)
                        | Some (Inr _) \<Rightarrow>
                            (let max_energy_thold = Fin (max_energy_in_middle * thold)
                             in if f32_less first_window_energy max_energy_thold
                                   \<and> f32_less last_window_energy max_energy_thold
                                then Some (Inr n_samples_window)
                                else Some (Inr 0))))))"

section \<open>The inference invoker\<close>

text \<open>\<^verbatim>\<open>::tolower\<close> in the C locale: an upper-case letter (65 to 90) gets 32 added, which sets
  bit 5 of its code. \<^verbatim>\<open>std::string::find\<close> gives a position, or \<open>None\<close> for \<^verbatim>\<open>npos\<close>.\<close>

definition tolower :: "char \<Rightarrow> char" where
  "tolower c =
     (if (65 :: nat) \<le> of_char c \<and> of_char c \<le> (90 :: nat)
      then (case c of Char b0 b1 b2 b3 b4 b5 b6 b7 \<Rightarrow> Char b0 b1 b2 b3 b4 True b6 b7)
      else c)"

fun starts_with :: "string \<Rightarrow> string \<Rightarrow> bool" where
  "starts_with s [] = True"
| "starts_with [] (p # ps) = False"
| "starts_with (c # cs) (p # ps) = (c = p \<and> starts_with cs ps)"

fun string_find :: "string \<Rightarrow> string \<Rightarrow> nat option" where
  "string_find [] pat = (if pat = [] then Some 0 else None)"
| "string_find (c # cs) pat =
     (if starts_with (c # cs) pat then Some 0 else map_option Suc (string_find cs pat))"

text \<open>Lines 413 to 418: the mean of the token probabilities of the first segment, the
  tokens being those the engine reports (\<^verbatim>\<open>n_tokens\<close> is their number). Line 416 rounds
  the sum to binary32 after every addition; line 418 converts the count to binary32 and
  rounds the quotient.\<close>

definition sentence_p :: "real list \<Rightarrow> f32" where
  "sentence_p token_p =
     f32_round (f32_div (foldl (\<lambda>s p. binary32 (s + p)) 0 token_p)
                        (binary32 (real (length token_p))))"

text \<open>
  \<^verbatim>\<open>run_whisper_inference\<close>, lines 383 to 441. The engine is external: \<open>ctx_null\<close> says
  whether \<^verbatim>\<open>gf->whisper_context\<close> is null, \<open>whisper_full_result\<close> is what \<^verbatim>\<open>whisper_full\<close>
  returned (it stays \<open>-1\<close> when the call throws), \<open>text\<close> and \<open>token_p\<close> are the transcript
  and the token probabilities of segment 0.
\<close>

definition run_whisper_inference :: "bool \<Rightarrow> int \<Rightarrow> string \<Rightarrow> real list \<Rightarrow> real \<Rightarrow> bool" where
  "run_whisper_inference ctx_null whisper_full_result text token_p filler_p_threshold =
     (if ctx_null then False
      else if whisper_full_result \<noteq> 0 then False
      else
        (let p = sentence_p token_p;
             text_lower = map tolower text
         in (string_find text_lower ''[bl'' \<noteq> None \<and> f32_less (Fin filler_p_threshold) p)
            \<or> string_find text_lower ''uh,'' \<noteq> None
            \<or> string_find text_lower ''um,'' \<noteq> None
            \<or> string_find text_lower ''um.'' \<noteq> None
            \<or> string_find text_lower ''ah.'' \<noteq> None
            \<or> string_find text_lower ''ah,'' \<noteq> None
            \<or> string_find text_lower ''eh.'' \<noteq> None
            \<or> string_find text_lower ''eh,'' \<noteq> None
            \<or> string_find text_lower ''uh.'' \<noteq> None))"


section \<open>Notions used to state the properties\<close>

definition sum_frames :: "cleanstream_audio_info list \<Rightarrow> nat" where
  "sum_frames q = sum_list (map (\<lambda>i. unat (info_frames i)) q)"

definition queue_balance :: "cleanstream_data \<Rightarrow> nat \<Rightarrow> bool" where
  "queue_balance gf lag =
     (\<forall>c<channels gf. c < length (input_buffers gf) \<and>
        4 * sum_frames (info_buffer gf) = circlebuf_size (input_buffers gf ! c) + 4 * lag)"

text \<open>
  A run of the filter: the host pushes packets (\<^verbatim>\<open>cleanstream_filter_audio\<close>), and the worker
  starts a cycle whenever the guard of \<^verbatim>\<open>whisper_loop\<close> holds. A cycle carries what the
  external parts decided: whether inference was skipped and how long the cycle took.
\<close>

datatype event = Push obs_audio_data | Cycle bool int

definition whisper_loop_iteration :: "cleanstream_data \<Rightarrow> bool \<Rightarrow> int \<Rightarrow> fault + cleanstream_data" where
  "whisper_loop_iteration gf skipped_inference duration =
     (if enough_input gf then process_audio_from_buffer gf skipped_inference duration else Inr gf)"

fun run :: "cleanstream_data \<Rightarrow> event list \<Rightarrow> fault + cleanstream_data" where
  "run gf [] = Inr gf"
| "run gf (Push audio # es) =
     (case cleanstream_filter_audio_push gf audio of
        Inl e \<Rightarrow> Inl e
      | Inr gf' \<Rightarrow> run gf' es)"
| "run gf (Cycle skipped_inference duration # es) =
     (case whisper_loop_iteration gf skipped_inference duration of
        Inl e \<Rightarrow> Inl e
      | Inr gf' \<Rightarrow> run gf' es)"

section \<open>Concrete streams\<close>

text \<open>
  A mono stream at 16 kHz as \<^verbatim>\<open>cleanstream_update\<close> configures it (1010 ms are 16160
  frames, 340 ms are 5440 frames), with five packets of 4000 frames queued and no window
  processed yet. The samples are numbered by region so that they can be told apart.
\<close>

definition packet :: "u32 \<Rightarrow> u64 \<Rightarrow> cleanstream_audio_info" where
  "packet n t = \<lparr>info_frames = n, info_timestamp = t\<rparr>"

definition stream_16k_0 :: cleanstream_data where
  "stream_16k_0 =
     \<lparr>channels = 1, sample_rate = 16000, frames = 16160, overlap_frames = 5440,
      overlap_ms = 340, last_num_frames = 0,
      copy_buffers = [replicate 16160 0],
      info_buffer = [packet 4000 1000, packet 4000 1250, packet 4000 1500,
                     packet 4000 1750, packet 4000 2000],
      info_out_buffer = [],
      input_buffers = [replicate 8000 1 @ replicate 5440 2 @ replicate 6560 3],
      output_buffers = [[]]\<rparr>"

text \<open>The same stream after its first cycle, which found speech and took 100 ms: the
  overlap has grown to 350 ms.\<close>

definition stream_16k_1 :: cleanstream_data where
  "stream_16k_1 =
     \<lparr>channels = 1, sample_rate = 16000, frames = 16160, overlap_frames = 5600,
      overlap_ms = 350, last_num_frames = 13440,
      copy_buffers = [replicate 8000 1 @ replicate 5440 2 @ replicate 2720 0],
      info_buffer = [packet 4000 1750, packet 4000 2000, packet 4000 1500],
      info_out_buffer = [packet 8000 1000],
      input_buffers = [replicate 6560 3],
      output_buffers = [replicate 8000 1]\<rparr>"

text \<open>A packet of 4000 frames of the sample 4, and the stream after three of them.\<close>

definition tone :: "u64 \<Rightarrow> obs_audio_data" where
  "tone t = \<lparr>audio_data = [replicate 4000 4], audio_frames = 4000, audio_timestamp = t\<rparr>"

definition stream_16k_2 :: cleanstream_data where
  "stream_16k_2 =
     \<lparr>channels = 1, sample_rate = 16000, frames = 16160, overlap_frames = 5600,
      overlap_ms = 350, last_num_frames = 13440,
      copy_buffers = [replicate 8000 1 @ replicate 5440 2 @ replicate 2720 0],
      info_buffer = [packet 4000 1750, packet 4000 2000, packet 4000 1500,
                     packet 4000 2250, packet 4000 2500, packet 4000 2750],
      info_out_buffer = [packet 8000 1000],
      input_buffers = [replicate 6560 3 @ replicate 4000 4 @ replicate 4000 4 @ replicate 4000 4],
      output_buffers = [replicate 8000 1]\<rparr>"

text \<open>The stream after its second cycle (speech again, 100 ms).\<close>

definition stream_16k_3 :: cleanstream_data where
  "stream_16k_3 =
     \<lparr>channels = 1, sample_rate = 16000, frames = 16160, overlap_frames = 5760,
      overlap_ms = 360, last_num_frames = 13600,
      copy_buffers = [replicate 160 1 @ replicate 5440 2 @ replicate 6560 3 @ replicate 1440 4
                        @ replicate 2560 0],
      info_buffer = [packet 4000 2250, packet 4000 2500, packet 4000 2750, packet 4000 1500],
      info_out_buffer = [packet 8000 1000, packet 8000 1750],
      input_buffers = [replicate 2560 4 @ replicate 4000 4 @ replicate 4000 4],
      output_buffers = [replicate 8000 1 @ replicate 160 1 @ replicate 5440 2 @ replicate 2400 3]\<rparr>"


text \<open>The stream \<open>stream_16k_0\<close> when the clock of the source starts at 0.\<close>

definition stream_from_zero :: cleanstream_data where
  "stream_from_zero =
     stream_16k_0\<lparr>info_buffer := [packet 4000 0, packet 4000 250, packet 4000 500,
                                  packet 4000 750, packet 4000 1000]\<rparr>"

text \<open>
  A mono stream at 48 kHz as configured (48480 frames a window, 16320 frames of overlap),
  with nothing queued, and a packet of \<open>n\<close> frames of the sample 1.
\<close>

definition stream_48k :: cleanstream_data where
  "stream_48k =
     \<lparr>channels = 1, sample_rate = 48000, frames = 48480, overlap_frames = 16320,
      overlap_ms = 340, last_num_frames = 0,
      copy_buffers = [replicate 48480 0],
      info_buffer = [], info_out_buffer = [],
      input_buffers = [[]], output_buffers = [[]]\<rparr>"

definition burst :: "u32 \<Rightarrow> u64 \<Rightarrow> obs_audio_data" where
  "burst n t = \<lparr>audio_data = [replicate (unat n) 1], audio_frames = n, audio_timestamp = t\<rparr>"

text \<open>
  \<open>stream_48k\<close> after a packet of 480 frames and two of 40000, a cycle of 5 ms on a window
  with speech, a cycle of 900 ms, and one more packet of 40000 frames.
\<close>

definition stream_48k_events :: "event list" where
  "stream_48k_events =
     [Push (burst 480 1000), Push (burst 40000 1010), Push (burst 40000 1843),
      Cycle False 5, Cycle False 900, Push (burst 40000 2676)]"

definition stream_48k_late :: cleanstream_data where
  "stream_48k_late =
     \<lparr>channels = 1, sample_rate = 48000, frames = 48480,
      overlap_frames = 18446744073709407, overlap_ms = 18446744073709551613,
      last_num_frames = 40336,
      copy_buffers = [replicate 336 1 @ replicate 23680 1 @ replicate 16320 1 @ replicate 8144 0],
      info_buffer = [packet 40000 1010, packet 40000 2676],
      info_out_buffer = [packet 480 1000, packet 40000 1843],
      input_buffers = [replicate 23680 1 @ replicate 40000 1],
      output_buffers = [replicate 480 1 @ replicate 336 1 @ replicate 23680 1 @ replicate 15984 1]\<rparr>"

section \<open>The signal gate and the classifier, in the words of the specification\<close>

text \<open>A transcript contains a marker when the marker occurs in it as a substring. Its
  lower-cased form has every letter from \<^verbatim>\<open>A\<close> to \<^verbatim>\<open>Z\<close> (codes 65 to 90) replaced by
  the letter 32 codes above.\<close>

definition contains_substring :: "string \<Rightarrow> string \<Rightarrow> bool" where
  "contains_substring s pat = (\<exists>pre suf. s = pre @ pat @ suf)"





text \<open>The disfluency substrings, and the rule of section 4.5: the lower-cased transcript
  contains the blank-speech marker and the mean token probability \<open>p\<close> exceeds the
  threshold, or it contains one of the disfluency substrings.\<close>

definition disfluency_markers :: "string list" where
  "disfluency_markers = [''uh,'', ''um,'', ''um.'', ''ah.'', ''ah,'', ''eh.'', ''eh,'', ''uh.'']"




text \<open>
  The rule of section 4.4 for a word boundary, on sub-windows of \<open>n\<close> samples (50 ms): the
  mean absolute amplitude of the sub-window that starts at \<open>i\<close>, the largest absolute
  amplitude in the interior (all samples but the first and the last sub-window), and the
  verdict: \<open>n\<close> if both edge means are below \<open>thold\<close> times the interior maximum, else 0.
\<close>

definition window_mean :: "real list \<Rightarrow> nat \<Rightarrow> nat \<Rightarrow> real" where
  "window_mean pcm i n = sum_list (map abs (take n (drop i pcm))) / real n"

definition interior_peak :: "real list \<Rightarrow> nat \<Rightarrow> real" where
  "interior_peak pcm n = foldl max 0 (map abs (take (length pcm - 2 * n) (drop n pcm)))"

definition word_boundary_as_specified :: "real list \<Rightarrow> u32 \<Rightarrow> real \<Rightarrow> nat" where
  "word_boundary_as_specified pcm rate thold =
     (let n = unat ((rate * 50) div 1000)
      in if window_mean pcm 0 n < thold * interior_peak pcm n
            \<and> window_mean pcm (length pcm - n) n < thold * interior_peak pcm n
         then n else 0)"

text \<open>150 ms at 16 kHz: 100 ms of silence, then one sample of amplitude 1 and silence.\<close>

definition silence_then_click :: "real list" where
  "silence_then_click = replicate 1600 0 @ 1 # replicate 799 0"

section \<open>Lemmas about the buffers and the drain\<close>

lemma for_channels_rule:
  assumes "for_channels body c k s = Inr s'"
    and "P c s"
    and "\<And>i t t'. c \<le> i \<Longrightarrow> i < c + k \<Longrightarrow> P i t \<Longrightarrow> body i t = Inr t' \<Longrightarrow> P (Suc i) t'"
  shows "P (c + k) s'"
  using assms
proof (induction k arbitrary: c s)
  case 0
  then show ?case by simp
next
  case (Suc k)
  from Suc.prems(1) obtain s1 where b: "body c s = Inr s1"
    and r: "for_channels body (Suc c) k s1 = Inr s'"
    by (auto split: sum.splits)
  have p1: "P (Suc c) s1"
    using Suc.prems(3) [of c s s1] Suc.prems(2) b by simp
  have "P (Suc c + k) s'"
  proof (rule Suc.IH [OF r p1])
    fix i t t'
    assume "Suc c \<le> i" "i < Suc c + k" "P i t" "body i t = Inr t'"
    then show "P (Suc i) t'"
      using Suc.prems(3) [of i t t'] by simp
  qed
  then show ?case by simp
qed

lemma for_channels_one:
  "for_channels body c 1 s = body c s"
  by (simp add: One_nat_def split: sum.splits)


lemma unat_ucast_u32: "unat (ucast (n :: u32) :: u64) = unat n"
  by transfer simp

lemma unat_u32_bound: "unat (n :: u32) < 4294967296"
  using unsigned_less [of n, where 'a = nat] by simp

lemma drain_infos_below_target:
  "target \<noteq> 0 \<Longrightarrow> ucast num < target \<Longrightarrow> drain_infos target q num ts = (q', num', ts')
     \<Longrightarrow> ucast num' < target"
proof (induction q arbitrary: num ts)
  case Nil
  then show ?case by simp
next
  case (Cons i rest)
  show ?case
  proof (cases "target \<le> ucast (num + info_frames i)")
    case True
    with Cons.prems show ?thesis by (simp add: Let_def)
  next
    case False
    then have lt: "ucast (num + info_frames i) < target" by simp
    from False Cons.prems(3)
    have "drain_infos target rest (num + info_frames i)
            (if ts = 0 then info_timestamp i else ts) = (q', num', ts')"
      by (simp add: Let_def)
    from Cons.IH [OF Cons.prems(1) lt this] show ?thesis .
  qed
qed

lemma drain_infos_zero_target:
  "drain_infos 0 q num ts = (q', num', ts') \<Longrightarrow> num' = num"
  by (cases q) (auto simp: Let_def)

lemma drain_infos_sum:
  "drain_infos target q num ts = (q', num', ts') \<Longrightarrow> unat num + sum_frames q < 2 ^ 32
     \<Longrightarrow> unat num' + sum_frames q' = unat num + sum_frames q"
proof (induction q arbitrary: num ts)
  case Nil
  then show ?case by (simp add: sum_frames_def)
next
  case (Cons i rest)
  have nowrap: "unat (num + info_frames i) = unat num + unat (info_frames i)"
    by (rule unat_add_lem [THEN iffD1]) (use Cons.prems(2) in \<open>simp add: sum_frames_def\<close>)
  show ?case
  proof (cases "target \<le> ucast (num + info_frames i)")
    case True
    with Cons.prems(1) show ?thesis
      by (auto simp: Let_def sum_frames_def circlebuf_push_back_def)
  next
    case False
    from False Cons.prems(1)
    have d: "drain_infos target rest (num + info_frames i)
            (if ts = 0 then info_timestamp i else ts) = (q', num', ts')"
      by (simp add: Let_def)
    have "unat (num + info_frames i) + sum_frames rest < 2 ^ 32"
      using Cons.prems(2) nowrap by (simp add: sum_frames_def)
    from Cons.IH [OF d this] nowrap show ?thesis
      by (simp add: sum_frames_def)
  qed
qed

lemma drain_infos_keeps_timestamp:
  "ts \<noteq> 0 \<Longrightarrow> drain_infos target q num ts = (q', num', ts') \<Longrightarrow> ts' = ts"
  by (induction q arbitrary: num) (auto simp: Let_def split: if_splits)

lemma drain_infos_first_timestamp:
  "info_timestamp i \<noteq> 0 \<Longrightarrow> drain_infos target (i # rest) num 0 = (q', num', ts')
     \<Longrightarrow> ts' = info_timestamp i"
  by (auto simp: Let_def split: if_splits dest: drain_infos_keeps_timestamp)

lemma drain_infos_window_fits:
  assumes le: "ov \<le> frm"
    and d: "drain_infos (frm - ov) q 0 ts = (q', num', ts')"
  shows "unat num' + unat ov \<le> unat frm"
proof (cases "ov = frm")
  case True
  with d have "num' = 0" by (auto dest: drain_infos_zero_target)
  with True show ?thesis by simp
next
  case False
  with le have lt: "ov < frm" by simp
  then have t: "frm - ov \<noteq> 0" by simp
  have z: "ucast (0 :: u32) < frm - ov"
    using t word_neq_0_conv [of "frm - ov"] by simp
  from drain_infos_below_target [OF t z d] have "ucast num' < frm - ov" .
  then have "unat num' < unat (frm - ov)"
    by (simp add: word_less_nat_alt unat_ucast_u32)
  moreover have "unat (frm - ov) = unat frm - unat ov"
    using le by (simp add: unat_sub)
  ultimately show ?thesis
    using le by (simp add: word_le_nat_alt)
qed

lemma floats_in_float_bytes: "unat x < 2 ^ 62 \<Longrightarrow> floats_in (float_bytes x) = unat x"
proof -
  assume a: "unat x < 2 ^ 62"
  have "unat (x * 4) = unat x * unat (4 :: u64)"
    by (rule unat_mult_lem [THEN iffD1]) (use a in simp)
  then show ?thesis
    by (simp add: floats_in_def float_bytes_def)
qed

lemma floats_in_float_bytes_ucast: "floats_in (float_bytes (ucast (n :: u32))) = unat n"
  using floats_in_float_bytes [of "ucast n"] unat_u32_bound [of n]
  by (simp add: unat_ucast_u32)

lemma assemble_body_effect:
  assumes "assemble_body num i t = Inr t'"
  shows "i < length (copy_buffers t) \<and> i < length (input_buffers t) \<and>
    (\<exists>cp inp. assemble_channel (last_num_frames t) (overlap_frames t) num
        (copy_buffers t ! i) (input_buffers t ! i) = Inr (cp, inp) \<and>
      t' = t\<lparr>copy_buffers := (copy_buffers t)[i := cp],
              input_buffers := (input_buffers t)[i := inp]\<rparr>)"
  using assms
  by (auto simp: assemble_body_def split: if_splits sum.splits)

lemma assemble_loop:
  assumes run: "for_channels (assemble_body num) 0 k g0 = Inr g1"
  shows "channels g1 = channels g0 \<and> sample_rate g1 = sample_rate g0 \<and> frames g1 = frames g0 \<and>
    overlap_frames g1 = overlap_frames g0 \<and> overlap_ms g1 = overlap_ms g0 \<and>
    last_num_frames g1 = last_num_frames g0 \<and> info_buffer g1 = info_buffer g0 \<and>
    info_out_buffer g1 = info_out_buffer g0 \<and> output_buffers g1 = output_buffers g0 \<and>
    length (copy_buffers g1) = length (copy_buffers g0) \<and>
    length (input_buffers g1) = length (input_buffers g0) \<and>
    (\<forall>j<k. j < length (copy_buffers g0) \<and> j < length (input_buffers g0) \<and>
       assemble_channel (last_num_frames g0) (overlap_frames g0) num
         (copy_buffers g0 ! j) (input_buffers g0 ! j) = Inr (copy_buffers g1 ! j, input_buffers g1 ! j))"
proof -
  define P where "P = (\<lambda>(i::nat) (t::cleanstream_data). channels t = channels g0 \<and> sample_rate t = sample_rate g0 \<and>
    frames t = frames g0 \<and>
    overlap_frames t = overlap_frames g0 \<and> overlap_ms t = overlap_ms g0 \<and>
    last_num_frames t = last_num_frames g0 \<and> info_buffer t = info_buffer g0 \<and>
    info_out_buffer t = info_out_buffer g0 \<and> output_buffers t = output_buffers g0 \<and>
    length (copy_buffers t) = length (copy_buffers g0) \<and>
    length (input_buffers t) = length (input_buffers g0) \<and>
    (\<forall>j<i. j < length (copy_buffers g0) \<and> j < length (input_buffers g0) \<and>
       assemble_channel (last_num_frames g0) (overlap_frames g0) num
         (copy_buffers g0 ! j) (input_buffers g0 ! j) = Inr (copy_buffers t ! j, input_buffers t ! j)) \<and>
    (\<forall>j\<ge>i. copy_buffers t ! j = copy_buffers g0 ! j \<and> input_buffers t ! j = input_buffers g0 ! j))"
  have "P (0 + k) g1"
  proof (rule for_channels_rule [OF run])
    show "P 0 g0" by (simp add: P_def)
  next
    fix i t t'
    assume p: "P i t" and b: "assemble_body num i t = Inr t'"
    from assemble_body_effect [OF b] obtain cp inp where
      i1: "i < length (copy_buffers t)" and i2: "i < length (input_buffers t)" and
      a: "assemble_channel (last_num_frames t) (overlap_frames t) num
        (copy_buffers t ! i) (input_buffers t ! i) = Inr (cp, inp)" and
      t': "t' = t\<lparr>copy_buffers := (copy_buffers t)[i := cp],
              input_buffers := (input_buffers t)[i := inp]\<rparr>"
      by blast
    from p have a0: "assemble_channel (last_num_frames g0) (overlap_frames g0) num
        (copy_buffers g0 ! i) (input_buffers g0 ! i) = Inr (cp, inp)"
      using a by (simp add: P_def)
    show "P (Suc i) t'"
      unfolding P_def t'
      using p i1 i2 a0
      by (auto simp: P_def nth_list_update less_Suc_eq)
  qed
  then show ?thesis by (simp add: P_def)
qed

lemma publish_channel_effect:
  assumes "publish_channel num i t = Inr t'"
  shows "i < length (copy_buffers t) \<and> i < length (output_buffers t) \<and>
    unat num \<le> length (copy_buffers t ! i) \<and>
    t' = t\<lparr>output_buffers := (output_buffers t)
            [i := output_buffers t ! i @ take (unat num) (copy_buffers t ! i)]\<rparr>"
  using assms
  by (auto simp: publish_channel_def circlebuf_push_back_def floats_in_float_bytes_ucast
      split: if_splits)

lemma publish_loop:
  assumes run: "for_channels (publish_channel num) 0 k g0 = Inr g1"
  shows "channels g1 = channels g0 \<and> sample_rate g1 = sample_rate g0 \<and> frames g1 = frames g0 \<and>
    overlap_frames g1 = overlap_frames g0 \<and> overlap_ms g1 = overlap_ms g0 \<and>
    last_num_frames g1 = last_num_frames g0 \<and> info_buffer g1 = info_buffer g0 \<and>
    info_out_buffer g1 = info_out_buffer g0 \<and> copy_buffers g1 = copy_buffers g0 \<and>
    input_buffers g1 = input_buffers g0 \<and>
    length (output_buffers g1) = length (output_buffers g0) \<and>
    (\<forall>j<k. j < length (copy_buffers g0) \<and> j < length (output_buffers g0) \<and>
       unat num \<le> length (copy_buffers g0 ! j) \<and>
       output_buffers g1 ! j = output_buffers g0 ! j @ take (unat num) (copy_buffers g0 ! j))"
proof -
  define P where "P = (\<lambda>(i::nat) (t::cleanstream_data).
    channels t = channels g0 \<and> sample_rate t = sample_rate g0 \<and> frames t = frames g0 \<and>
    overlap_frames t = overlap_frames g0 \<and> overlap_ms t = overlap_ms g0 \<and>
    last_num_frames t = last_num_frames g0 \<and> info_buffer t = info_buffer g0 \<and>
    info_out_buffer t = info_out_buffer g0 \<and> copy_buffers t = copy_buffers g0 \<and>
    input_buffers t = input_buffers g0 \<and>
    length (output_buffers t) = length (output_buffers g0) \<and>
    (\<forall>j<i. j < length (copy_buffers g0) \<and> j < length (output_buffers g0) \<and>
       unat num \<le> length (copy_buffers g0 ! j) \<and>
       output_buffers t ! j = output_buffers g0 ! j @ take (unat num) (copy_buffers g0 ! j)) \<and>
    (\<forall>j\<ge>i. output_buffers t ! j = output_buffers g0 ! j))"
  have "P (0 + k) g1"
  proof (rule for_channels_rule [OF run])
    show "P 0 g0" by (simp add: P_def)
  next
    fix i t t'
    assume p: "P i t" and b: "publish_channel num i t = Inr t'"
    from publish_channel_effect [OF b] p show "P (Suc i) t'"
      by (auto simp: P_def nth_list_update less_Suc_eq)
  qed
  then show ?thesis by (simp add: P_def)
qed

lemma push_channel_effect:
  assumes "push_channel audio i t = Inr t'"
  shows "i < length (input_buffers t) \<and> i < length (audio_data audio) \<and>
    unat (audio_frames audio) \<le> length (audio_data audio ! i) \<and>
    t' = t\<lparr>input_buffers := (input_buffers t)
            [i := input_buffers t ! i @ take (unat (audio_frames audio)) (audio_data audio ! i)]\<rparr>"
  using assms
  by (auto simp: push_channel_def circlebuf_push_back_def floats_in_float_bytes_ucast
      split: if_splits)

lemma push_loop:
  assumes run: "for_channels (push_channel audio) 0 k g0 = Inr g1"
  shows "channels g1 = channels g0 \<and> sample_rate g1 = sample_rate g0 \<and> frames g1 = frames g0 \<and>
    overlap_frames g1 = overlap_frames g0 \<and> overlap_ms g1 = overlap_ms g0 \<and>
    last_num_frames g1 = last_num_frames g0 \<and> info_buffer g1 = info_buffer g0 \<and>
    info_out_buffer g1 = info_out_buffer g0 \<and> copy_buffers g1 = copy_buffers g0 \<and>
    output_buffers g1 = output_buffers g0 \<and>
    length (input_buffers g1) = length (input_buffers g0) \<and>
    (\<forall>j<k. j < length (input_buffers g0) \<and>
       length (input_buffers g1 ! j) = length (input_buffers g0 ! j) + unat (audio_frames audio))"
proof -
  define P where "P = (\<lambda>(i::nat) (t::cleanstream_data).
    channels t = channels g0 \<and> sample_rate t = sample_rate g0 \<and> frames t = frames g0 \<and>
    overlap_frames t = overlap_frames g0 \<and> overlap_ms t = overlap_ms g0 \<and>
    last_num_frames t = last_num_frames g0 \<and> info_buffer t = info_buffer g0 \<and>
    info_out_buffer t = info_out_buffer g0 \<and> copy_buffers t = copy_buffers g0 \<and>
    output_buffers t = output_buffers g0 \<and>
    length (input_buffers t) = length (input_buffers g0) \<and>
    (\<forall>j<i. j < length (input_buffers g0) \<and>
       length (input_buffers t ! j) = length (input_buffers g0 ! j) + unat (audio_frames audio)) \<and>
    (\<forall>j\<ge>i. input_buffers t ! j = input_buffers g0 ! j))"
  have "P (0 + k) g1"
  proof (rule for_channels_rule [OF run])
    show "P 0 g0" by (simp add: P_def)
  next
    fix i t t'
    assume p: "P i t" and b: "push_channel audio i t = Inr t'"
    from push_channel_effect [OF b] p show "P (Suc i) t'"
      by (auto simp: P_def nth_list_update less_Suc_eq)
  qed
  then show ?thesis by (simp add: P_def)
qed

lemma segment_assemble_result:
  assumes sa: "segment_assemble gf = Inr (g1, num, ts)"
  shows "drain_infos (frames gf - overlap_frames gf) (info_buffer gf) 0 0 = (info_buffer g1, num, ts) \<and>
    channels g1 = channels gf \<and> sample_rate g1 = sample_rate gf \<and> frames g1 = frames gf \<and>
    overlap_frames g1 = overlap_frames gf \<and> overlap_ms g1 = overlap_ms gf \<and>
    last_num_frames g1 = ucast num + overlap_frames gf \<and>
    info_out_buffer g1 = info_out_buffer gf \<and> output_buffers g1 = output_buffers gf \<and>
    length (copy_buffers g1) = length (copy_buffers gf) \<and>
    length (input_buffers g1) = length (input_buffers gf) \<and>
    (\<forall>c<channels gf. c < length (copy_buffers gf) \<and> c < length (input_buffers gf) \<and>
       assemble_channel (last_num_frames gf) (overlap_frames gf) num
         (copy_buffers gf ! c) (input_buffers gf ! c) = Inr (copy_buffers g1 ! c, input_buffers g1 ! c))"
proof -
  obtain q n t where d: "drain_infos (frames gf - overlap_frames gf) (info_buffer gf) 0 0 = (q, n, t)"
    by (cases "drain_infos (frames gf - overlap_frames gf) (info_buffer gf) 0 0") auto
  from sa d have sa': "(case for_channels (assemble_body n) 0 (channels gf) (gf\<lparr>info_buffer := q\<rparr>) of
       Inl e \<Rightarrow> Inl e
     | Inr g \<Rightarrow> Inr (g\<lparr>last_num_frames := ucast n + overlap_frames g\<rparr>, n, t)) = Inr (g1, num, ts)"
    by (simp add: segment_assemble_def)
  then obtain g where
    loop: "for_channels (assemble_body n) 0 (channels gf) (gf\<lparr>info_buffer := q\<rparr>) = Inr g"
    by (cases "for_channels (assemble_body n) 0 (channels gf) (gf\<lparr>info_buffer := q\<rparr>)") simp_all
  with sa' have g1: "g1 = g\<lparr>last_num_frames := ucast n + overlap_frames g\<rparr>" and nt: "num = n" "ts = t"
    by auto
  from assemble_loop [OF loop] d g1 nt show ?thesis
    by simp
qed

lemma adapt_overlap_buffers:
  "copy_buffers (adapt_overlap g m s d) = copy_buffers g \<and>
   input_buffers (adapt_overlap g m s d) = input_buffers g \<and>
   output_buffers (adapt_overlap g m s d) = output_buffers g \<and>
   info_buffer (adapt_overlap g m s d) = info_buffer g \<and>
   info_out_buffer (adapt_overlap g m s d) = info_out_buffer g \<and>
   channels (adapt_overlap g m s d) = channels g \<and>
   frames (adapt_overlap g m s d) = frames g \<and>
   sample_rate (adapt_overlap g m s d) = sample_rate g \<and>
   last_num_frames (adapt_overlap g m s d) = last_num_frames g"
  by (simp add: adapt_overlap_def set_overlap_def)

lemma publish_result:
  assumes p: "publish g1 num ts = Inr g2"
  shows "channels g2 = channels g1 \<and> sample_rate g2 = sample_rate g1 \<and> frames g2 = frames g1 \<and>
    overlap_frames g2 = overlap_frames g1 \<and> overlap_ms g2 = overlap_ms g1 \<and>
    last_num_frames g2 = last_num_frames g1 \<and> info_buffer g2 = info_buffer g1 \<and>
    info_out_buffer g2 = info_out_buffer g1 @ [\<lparr>info_frames = num, info_timestamp = ts\<rparr>] \<and>
    copy_buffers g2 = copy_buffers g1 \<and> input_buffers g2 = input_buffers g1 \<and>
    length (output_buffers g2) = length (output_buffers g1) \<and>
    (\<forall>c<channels g1. c < length (copy_buffers g1) \<and> c < length (output_buffers g1) \<and>
       unat num \<le> length (copy_buffers g1 ! c) \<and>
       output_buffers g2 ! c = output_buffers g1 ! c @ take (unat num) (copy_buffers g1 ! c))"
  using publish_loop [OF p [unfolded publish_def]]
  by (simp add: circlebuf_push_back_def)

lemma process_audio_from_buffer_result:
  assumes "process_audio_from_buffer gf sk d = Inr gf'"
  shows "\<exists>g1 g2 num ts. segment_assemble gf = Inr (g1, num, ts) \<and> publish g1 num ts = Inr g2 \<and>
    sample_rate g1 \<noteq> 0 \<and>
    gf' = adapt_overlap g2 ((num * 1000) div sample_rate g2) sk d"
  using assms
  by (auto simp: process_audio_from_buffer_def split: sum.splits if_splits)


lemma sum_frames_append: "sum_frames (xs @ ys) = sum_frames xs + sum_frames ys"
  by (simp add: sum_frames_def)

lemma push_result:
  assumes p: "cleanstream_filter_audio_push gf audio = Inr gf'"
  shows "channels gf' = channels gf \<and>
    info_buffer gf' = info_buffer gf
       @ [\<lparr>info_frames = audio_frames audio, info_timestamp = audio_timestamp audio\<rparr>] \<and>
    length (input_buffers gf') = length (input_buffers gf) \<and>
    (\<forall>c<channels gf. c < length (input_buffers gf) \<and>
       length (input_buffers gf' ! c) = length (input_buffers gf ! c) + unat (audio_frames audio))"
proof -
  from p obtain g where
    loop: "for_channels (push_channel audio) 0 (channels gf) gf = Inr g"
    by (cases "for_channels (push_channel audio) 0 (channels gf) gf")
      (simp_all add: cleanstream_filter_audio_push_def)
  with p have "gf' = g\<lparr>info_buffer := info_buffer g
       @ [\<lparr>info_frames = audio_frames audio, info_timestamp = audio_timestamp audio\<rparr>]\<rparr>"
    by (auto simp: cleanstream_filter_audio_push_def circlebuf_push_back_def)
  with push_loop [OF loop] show ?thesis by simp
qed

lemma assemble_channel_length:
  assumes a: "assemble_channel last_n ov num cp inp = Inr (cp', inp')"
    and fits: "unat num + unat ov < 2 ^ 62"
  shows "length inp' + (if 0 < last_n then unat num else unat num + unat ov) = length inp"
proof (cases "0 < last_n")
  case True
  with a obtain xs where "circlebuf_pop_front inp (float_bytes (ucast num)) = Inr (xs, inp')"
    by (auto simp: assemble_channel_def Let_def split: if_splits sum.splits)
  with True show ?thesis
    by (auto simp: circlebuf_pop_front_def floats_in_float_bytes_ucast split: if_splits)
next
  case False
  with a obtain xs where pop: "circlebuf_pop_front inp (float_bytes (ucast num + ov)) = Inr (xs, inp')"
    by (auto simp: assemble_channel_def Let_def split: if_splits sum.splits)
  have "unat (ucast num + ov :: u64) = unat (ucast num :: u64) + unat ov"
    by (rule unat_add_lem [THEN iffD1]) (use fits in \<open>simp add: unat_ucast_u32\<close>)
  then have u: "unat (ucast num + ov :: u64) = unat num + unat ov"
    by (simp add: unat_ucast_u32)
  with fits have "floats_in (float_bytes (ucast num + ov)) = unat num + unat ov"
    by (simp add: floats_in_float_bytes)
  with pop False show ?thesis
    by (auto simp: circlebuf_pop_front_def split: if_splits)
qed


lemma segment_assemble_window_fits:
  assumes ov: "overlap_frames gf \<le> frames gf"
    and sa: "segment_assemble gf = Inr (g1, num, ts)"
  shows "last_num_frames g1 \<le> frames gf \<and>
    unat (last_num_frames g1) = unat num + unat (overlap_frames gf)"
proof -
  note s = segment_assemble_result [OF sa]
  then have d: "drain_infos (frames gf - overlap_frames gf) (info_buffer gf) 0 0
                    = (info_buffer g1, num, ts)" by simp
  from drain_infos_window_fits [OF ov d]
  have fits: "unat num + unat (overlap_frames gf) \<le> unat (frames gf)" .
  have "unat (frames gf) < 2 ^ 64"
    using unsigned_less [of "frames gf", where 'a = nat] by simp
  with fits have "unat (ucast num :: u64) + unat (overlap_frames gf) < 2 ^ LENGTH(64)"
    by (simp add: unat_ucast_u32)
  then have "unat (ucast num + overlap_frames gf) = unat (ucast num :: u64) + unat (overlap_frames gf)"
    by (rule unat_add_lem [THEN iffD1])
  with fits s show ?thesis
    by (simp add: word_le_nat_alt unat_ucast_u32)
qed
section \<open>Running the concrete streams\<close>

lemmas cycle_defs =
  process_audio_from_buffer_def segment_assemble_def assemble_body_def assemble_channel_def
  circlebuf_pop_front_def circlebuf_push_back_def float_bytes_def floats_in_def
  publish_def publish_channel_def adapt_overlap_def set_overlap_def overlap_cap_def
  for_channels_one cleanstream_filter_audio_push_def push_channel_def
  whisper_loop_iteration_def enough_input_def circlebuf_size_def packet_def

lemma first_cycle_16k: "process_audio_from_buffer stream_16k_0 False 100 = Inr stream_16k_1"
  by (simp add: stream_16k_0_def stream_16k_1_def cycle_defs)

lemma pushes_16k:
  "run stream_16k_1 [Push (tone 2250), Push (tone 2500), Push (tone 2750)] = Inr stream_16k_2"
  by (simp add: stream_16k_1_def stream_16k_2_def tone_def cycle_defs)

lemma second_cycle_16k: "process_audio_from_buffer stream_16k_2 False 100 = Inr stream_16k_3"
  by (simp add: stream_16k_2_def stream_16k_3_def cycle_defs)

lemma first_drain_16k:
  "drain_infos (frames stream_16k_0 - overlap_frames stream_16k_0) (info_buffer stream_16k_0) 0 0
     = ([packet 4000 1750, packet 4000 2000, packet 4000 1500], 8000, 1000)"
  by (simp add: stream_16k_0_def cycle_defs)

lemma second_drain_16k:
  "drain_infos (frames stream_16k_2 - overlap_frames stream_16k_2) (info_buffer stream_16k_2) 0 0
     = ([packet 4000 2250, packet 4000 2500, packet 4000 2750, packet 4000 1500], 8000, 1750)"
  by (simp add: stream_16k_2_def cycle_defs)

lemma run_48k: "run stream_48k stream_48k_events = Inr stream_48k_late"
  by (simp add: stream_48k_def stream_48k_events_def stream_48k_late_def burst_def cycle_defs)

section \<open>Lemmas about the overlap controller\<close>




text \<open>What a cycle that completes appends to the output of a channel: the first
  \<^verbatim>\<open>num_new_frames_from_infos\<close> samples of the analysis window, and one packet info.\<close>

lemma publish_appends_window_prefix:
  assumes run: "process_audio_from_buffer gf skipped_inference duration = Inr gf'"
    and d: "drain_infos (frames gf - overlap_frames gf) (info_buffer gf) 0 0
              = (q, num_new, start_timestamp)"
    and c: "c < channels gf"
  shows "output_buffers gf' ! c = output_buffers gf ! c @ take (unat num_new) (copy_buffers gf' ! c)
    \<and> unat num_new \<le> length (copy_buffers gf' ! c)
    \<and> info_out_buffer gf'
        = info_out_buffer gf @ [\<lparr>info_frames = num_new, info_timestamp = start_timestamp\<rparr>]"
proof -
  from process_audio_from_buffer_result [OF run] obtain g1 g2 num ts where
    sa: "segment_assemble gf = Inr (g1, num, ts)" and pb: "publish g1 num ts = Inr g2" and
    gf': "gf' = adapt_overlap g2 ((num * 1000) div sample_rate g2) skipped_inference duration"
    by blast
  note s = segment_assemble_result [OF sa]
  note p = publish_result [OF pb]
  from s d have eq: "num = num_new" "ts = start_timestamp" by simp_all
  from s c have c1: "c < channels g1" by simp
  with p have "output_buffers g2 ! c = output_buffers g1 ! c @ take (unat num) (copy_buffers g1 ! c)"
    and "unat num \<le> length (copy_buffers g1 ! c)"
    by simp_all
  with s p eq gf' show ?thesis
    by (simp add: adapt_overlap_buffers)
qed

section \<open>Lemmas about rounding\<close>


lemma round_half_even_of_int [simp]: "round_half_even (of_int k) = k"
  by (simp add: round_half_even_def)

lemma round_half_even_0 [simp]: "round_half_even 0 = 0"
  by (simp add: round_half_even_def)


lemma round_half_even_minus: "round_half_even (- x) = - round_half_even x"
proof (cases "x \<in> \<int>")
  case True
  then obtain k where "x = of_int k" by (auto elim: Ints_cases)
  then have "- x = of_int (- k)" by simp
  with \<open>x = of_int k\<close> show ?thesis by (simp only: round_half_even_of_int)
next
  case False
  then have ne: "of_int \<lfloor>x\<rfloor> \<noteq> x"
    using Ints_of_int [of "\<lfloor>x\<rfloor>", where 'a = real] by auto
  then have f: "\<lfloor>- x\<rfloor> = - \<lfloor>x\<rfloor> - 1"
    by (auto simp: floor_minus ceiling_altdef)
  have lt: "of_int \<lfloor>x\<rfloor> < x"
    unfolding less_le using ne of_int_floor_le [of x] by blast
  show ?thesis
    unfolding round_half_even_def Let_def f using lt
    by (auto simp: algebra_simps)
qed



lemma ieee_ulp_minus: "ieee_ulp p emin (- x) = ieee_ulp p emin x"
  by (simp add: ieee_ulp_def ieee_exponent_def)

lemma ieee_round_minus: "ieee_round p emin (- x) = - ieee_round p emin x"
  by (simp add: ieee_round_def ieee_ulp_minus round_half_even_minus)










text \<open>
  The value of a rounding at a given number: with \<open>2 ^ a / 2 ^ b\<close> the power of two at or
  just below \<open>\<bar>x\<bar>\<close>, the result is the integer nearest to \<open>x\<close> in units of the last place,
  times the unit.
\<close>

lemma ieee_exponent_eval:
  assumes lo: "2 ^ a \<le> \<bar>x\<bar> * 2 ^ b" and hi: "\<bar>x\<bar> * 2 ^ b < 2 * 2 ^ a"
    and n: "emin \<le> int a - int b"
  shows "ieee_exponent emin x = int a - int b"
proof -
  have pos: "0 < \<bar>x\<bar>"
  proof (rule ccontr)
    assume "\<not> 0 < \<bar>x\<bar>"
    then have "\<bar>x\<bar> = 0" by simp
    with lo have "(2::real) ^ a \<le> 0" by simp
    moreover have "(0::real) < 2 ^ a" by simp
    ultimately show False by linarith
  qed
  have p: "(2::real) powr of_int (int a - int b) = 2 ^ a / 2 ^ b"
    by (simp add: powr_diff powr_realpow)
  have p1: "(2::real) powr of_int (int a - int b + 1) = 2 * 2 ^ a / 2 ^ b"
    by (simp add: powr_diff powr_add powr_realpow)
  have "\<lfloor>log 2 \<bar>x\<bar>\<rfloor> = int a - int b"
    using floor_log_eq_powr_iff [of "\<bar>x\<bar>" 2 "int a - int b"] pos lo hi
    unfolding p p1 by (simp add: field_simps)
  with n show ?thesis by (simp add: ieee_exponent_def)
qed

lemma ieee_round_eval:
  assumes lo: "2 ^ a \<le> \<bar>x\<bar> * 2 ^ b" and hi: "\<bar>x\<bar> * 2 ^ b < 2 * 2 ^ a"
    and n: "emin \<le> int a - int b" and p: "1 \<le> p"
    and m: "round_half_even (x * 2 ^ (b + (p - 1)) / 2 ^ a) = m"
    and y: "y = of_int m * 2 ^ a / 2 ^ (b + (p - 1))"
  shows "ieee_round p emin x = y"
proof -
  have x0: "x \<noteq> 0"
  proof
    assume "x = 0"
    with lo have "(2::real) ^ a \<le> 0" by simp
    moreover have "(0::real) < 2 ^ a" by simp
    ultimately show False by linarith
  qed
  have e: "ieee_exponent emin x = int a - int b"
    using lo hi n by (rule ieee_exponent_eval)
  have "ieee_ulp p emin x = 2 powr of_int (int a - int (b + (p - 1)))"
    using p by (simp add: ieee_ulp_def e of_nat_diff algebra_simps)
  also have "\<dots> = 2 ^ a / 2 ^ (b + (p - 1))"
    by (simp only: of_int_diff of_int_of_nat_eq powr_diff powr_realpow zero_less_numeral)
  finally have u: "ieee_ulp p emin x = 2 ^ a / 2 ^ (b + (p - 1))" .
  show ?thesis
    using x0 m by (simp add: ieee_round_def u y)
qed

lemma binary32_eval:
  assumes "2 ^ a \<le> \<bar>x\<bar> * 2 ^ b" and "\<bar>x\<bar> * 2 ^ b < 2 * 2 ^ a"
    and "- 126 \<le> int a - int b"
    and "round_half_even (x * 2 ^ (b + 23) / 2 ^ a) = m"
    and "y = of_int m * 2 ^ a / 2 ^ (b + 23)"
  shows "binary32 x = y"
  unfolding binary32_def using assms
  by (intro ieee_round_eval [where a = a and b = b and m = m]) simp_all


lemma binary32_0 [simp]: "binary32 0 = 0"
  by (simp add: binary32_def ieee_round_def)

lemma binary32_1 [simp]: "binary32 1 = 1"
  by (rule binary32_eval [where a = 0 and b = 0 and m = "2 ^ 23"])
    (simp_all add: round_half_even_def)



lemma binary32_minus: "binary32 (- x) = - binary32 x"
  unfolding binary32_def by (rule ieee_round_minus)








section \<open>Lemmas about the rounded sums\<close>












section \<open>Lemmas about the word-boundary check and the classifier\<close>

lemma sum_abs_from_in_range:
  "i + k \<le> length pcm \<Longrightarrow> length pcm \<le> 2 ^ 64
     \<Longrightarrow> sum_abs_from pcm i k e = Inr (e + sum_list (map abs (take k (drop i pcm))))"
proof (induction k arbitrary: i e)
  case 0
  then show ?case by simp
next
  case (Suc k)
  then have i: "i < length pcm" and m: "i mod 2 ^ 64 = i" by simp_all
  have t: "take (Suc k) (drop i pcm) = pcm ! i # take k (drop (Suc i) pcm)"
    using i by (simp add: Cons_nth_drop_Suc [symmetric])
  from Suc.prems have "Suc i + k \<le> length pcm" by simp
  from Suc.IH [OF this Suc.prems(2)] i m t show ?case
    by (simp add: add.assoc)
qed

lemma max_abs_from_in_range:
  "i + k \<le> length pcm \<Longrightarrow> length pcm \<le> 2 ^ 64
     \<Longrightarrow> max_abs_from pcm i k e = Inr (foldl max e (map abs (take k (drop i pcm))))"
proof (induction k arbitrary: i e)
  case 0
  then show ?case by simp
next
  case (Suc k)
  then have i: "i < length pcm" and m: "i mod 2 ^ 64 = i" by simp_all
  have t: "take (Suc k) (drop i pcm) = pcm ! i # take k (drop (Suc i) pcm)"
    using i by (simp add: Cons_nth_drop_Suc [symmetric])
  from Suc.prems have "Suc i + k \<le> length pcm" by simp
  from Suc.IH [OF this Suc.prems(2)] i m t show ?case
    by simp
qed

lemma avg_energy_in_range:
  "unat window_i + unat n \<le> length pcm \<Longrightarrow> length pcm \<le> 2 ^ 64
     \<Longrightarrow> avg_energy_in_window pcm window_i n
        = Inr (f32_div (sum_list (map abs (take (unat n) (drop (unat window_i) pcm)))) (real (unat n)))"
  by (simp add: avg_energy_in_window_def sum_abs_from_in_range)

lemma max_energy_in_range:
  "unat window_i + unat n \<le> length pcm \<Longrightarrow> length pcm \<le> 2 ^ 64
     \<Longrightarrow> max_energy_in_window pcm window_i n
        = Inr (foldl max 0 (map abs (take (unat n) (drop (unat window_i) pcm))))"
  by (simp add: max_energy_in_window_def max_abs_from_in_range)

lemma log_windows_returns:
  assumes n: "0 < n" and fit: "unat bound + unat n \<le> length pcm" and len: "length pcm \<le> 2 ^ 64"
  shows "log_windows pcm n bound i = Some (Inr ())"
proof (induction "unat bound - unat i" arbitrary: i rule: less_induct)
  case less
  show ?case
  proof (cases "i < bound")
    case False
    then show ?thesis by (subst log_windows.simps) simp
  next
    case True
    then have lt: "unat i < unat bound" by (simp add: word_less_nat_alt)
    with fit have "unat i + unat n \<le> length pcm" by simp
    from avg_energy_in_range [OF this len] obtain a where
      a: "avg_energy_in_window pcm i n = Inr a" by simp
    have "unat i + unat n < 2 ^ LENGTH(64)"
      using lt fit len by simp
    then have u: "unat (i + n) = unat i + unat n"
      by (rule unat_add_lem [THEN iffD1])
    have "0 < unat n" using n by (simp add: word_less_nat_alt)
    with u lt have "unat bound - unat (i + n) < unat bound - unat i" by simp
    from less [OF this] have "log_windows pcm n bound (i + n) = Some (Inr ())" .
    with True a show ?thesis by (subst log_windows.simps) simp
  qed
qed

lemma word_boundary_simple_in_bounds:
  assumes nsw: "nsw = (ucast ((rate * 50) div 1000) :: u64)"
    and pos: "0 < nsw"
    and size: "unat pcm32f_size = length pcm"
    and two: "2 * unat nsw \<le> length pcm"
  shows "word_boundary_simple pcm pcm32f_size rate thold =
    Some (Inr (if f32_less (Fin (window_mean pcm 0 (unat nsw)))
                    (Fin (foldl max 0 (map abs (drop (unat nsw) pcm)) * thold))
                \<and> f32_less (Fin (window_mean pcm (length pcm - unat nsw) (unat nsw)))
                    (Fin (foldl max 0 (map abs (drop (unat nsw) pcm)) * thold))
               then nsw else 0))"
proof -
  have len: "length pcm \<le> 2 ^ 64"
    using size unsigned_less [of pcm32f_size, where 'a = nat] by simp
  have le: "nsw \<le> pcm32f_size"
    using two size by (simp add: word_le_nat_alt)
  then have sub: "unat (pcm32f_size - nsw) = length pcm - unat nsw"
    using size by (simp add: unat_sub)
  have "unat nsw \<noteq> 0"
    using pos by (simp add: word_less_nat_alt)
  then have n0: "real (unat nsw) \<noteq> 0"
    by (simp only: of_nat_eq_0_iff not_False_eq_True)
  have first: "avg_energy_in_window pcm 0 nsw = Inr (Fin (window_mean pcm 0 (unat nsw)))"
    using avg_energy_in_range [of 0 nsw pcm] two len n0
    by (simp add: window_mean_def f32_div_def)
  have last: "avg_energy_in_window pcm (pcm32f_size - nsw) nsw
      = Inr (Fin (window_mean pcm (length pcm - unat nsw) (unat nsw)))"
    using avg_energy_in_range [of "pcm32f_size - nsw" nsw pcm] two len n0 sub
    by (simp add: window_mean_def f32_div_def)
  have mid: "max_energy_in_window pcm nsw (pcm32f_size - nsw)
      = Inr (foldl max 0 (map abs (drop (unat nsw) pcm)))"
    using max_energy_in_range [of nsw "pcm32f_size - nsw" pcm] two len sub
    by simp
  have log: "log_windows pcm nsw (pcm32f_size - nsw) 0 = Some (Inr ())"
    using log_windows_returns [OF pos _ len, of "pcm32f_size - nsw" 0] sub two by simp
  show ?thesis
    unfolding word_boundary_simple_def nsw [symmetric] Let_def
    by (simp add: first last mid log)
qed

lemma foldl_max_replicate:
  "foldl max e (replicate n x) = (if n = 0 then e else max e (x :: real))"
  by (induction n arbitrary: e) auto

lemma starts_with_iff: "starts_with s p \<longleftrightarrow> (\<exists>suf. s = p @ suf)"
  by (induction s p rule: starts_with.induct) auto

lemma string_find_iff: "string_find s p \<noteq> None \<longleftrightarrow> contains_substring s p"
proof (induction s)
  case Nil
  then show ?case by (auto simp: contains_substring_def)
next
  case (Cons c cs)
  show ?case
  proof
    assume "string_find (c # cs) p \<noteq> None"
    then consider "starts_with (c # cs) p" | "string_find cs p \<noteq> None"
      by (auto split: if_splits)
    then show "contains_substring (c # cs) p"
    proof cases
      case 1
      then obtain suf where "c # cs = p @ suf" by (auto simp: starts_with_iff)
      then have "c # cs = [] @ p @ suf" by simp
      then show ?thesis unfolding contains_substring_def by blast
    next
      case 2
      with Cons.IH obtain pre suf where "cs = pre @ p @ suf"
        by (auto simp: contains_substring_def)
      then have "c # cs = (c # pre) @ p @ suf" by simp
      then show ?thesis unfolding contains_substring_def by blast
    qed
  next
    assume "contains_substring (c # cs) p"
    then obtain pre suf where e: "c # cs = pre @ p @ suf"
      by (auto simp: contains_substring_def)
    show "string_find (c # cs) p \<noteq> None"
    proof (cases pre)
      case Nil
      with e have "starts_with (c # cs) p" by (auto simp: starts_with_iff)
      then show ?thesis by simp
    next
      case (Cons a pre')
      with e have "cs = pre' @ p @ suf" by simp
      then have "contains_substring cs p" unfolding contains_substring_def by blast
      with Cons.IH have "string_find cs p \<noteq> None" by simp
      then show ?thesis by (auto split: if_splits)
    qed
  qed
qed


lemma run_whisper_inference_eq:
  "run_whisper_inference False 0 text token_p thr =
     ((contains_substring (map tolower text) ''[bl'' \<and> f32_less (Fin thr) (sentence_p token_p))
      \<or> (\<exists>m \<in> set disfluency_markers. contains_substring (map tolower text) m))"
  unfolding run_whisper_inference_def disfluency_markers_def Let_def
  by (simp add: string_find_iff [symmetric] del: string_find.simps)

section \<open>Values of the signal gate at 16 kHz\<close>



section \<open>The claims about the queues\<close>

subsection \<open>C1: what the Output Assembler appends\<close>

text \<open>
  C1 does not hold of the code. In every cycle the Output Assembler appends the first
  \<^verbatim>\<open>num_new_frames_from_infos\<close> samples of the analysis window, read from offset 0 of
  \<^verbatim>\<open>copy_buffers[c]\<close> (line 598, lemma \<open>publish_appends_window_prefix\<close>), where the samples
  drained in the cycle start at offset \<^verbatim>\<open>overlap_frames\<close>. The first cycle of \<open>stream_16k_0\<close>
  emits its 8000 samples 1 and raises the overlap from 5440 to 5600 frames. The second
  window then starts with the last 5600 samples of the first one, from offset 7840: the
  160 samples 1 that were emitted already, and the 5440 samples 2. The 8000 samples
  drained in the second cycle (the samples 3 and 4) follow at offset 5600. The output
  receives the 160 samples 1 a second time, the samples 2 and 2400 of the samples 3: after
  two windows it holds 8160 samples 1, where the source sent 8000. The packet info has
  the frame count and the timestamp of the drain.
\<close>

theorem output_repeats_emitted_samples:
  "input_buffers stream_16k_0 ! 0 = replicate 8000 1 @ replicate 5440 2 @ replicate 6560 3
   \<and> process_audio_from_buffer stream_16k_0 False 100 = Inr stream_16k_1
   \<and> output_buffers stream_16k_1 ! 0 = replicate 8000 1
   \<and> stream_16k_2
       = stream_16k_1
           \<lparr>info_buffer := info_buffer stream_16k_1
                @ [packet 4000 2250, packet 4000 2500, packet 4000 2750],
            input_buffers := [input_buffers stream_16k_1 ! 0 @ replicate 12000 4]\<rparr>
   \<and> process_audio_from_buffer stream_16k_2 False 100 = Inr stream_16k_3
   \<and> drain_infos (frames stream_16k_2 - overlap_frames stream_16k_2) (info_buffer stream_16k_2) 0 0
       = ([packet 4000 2250, packet 4000 2500, packet 4000 2750, packet 4000 1500], 8000, 1750)
   \<and> overlap_frames stream_16k_2 = 5600
   \<and> take 8000 (drop 5600 (copy_buffers stream_16k_3 ! 0)) = replicate 6560 3 @ replicate 1440 4
   \<and> output_buffers stream_16k_3 ! 0
       = replicate 8160 1 @ replicate 5440 2 @ replicate 2400 3
   \<and> output_buffers stream_16k_3 ! 0
       \<noteq> output_buffers stream_16k_2 ! 0 @ take 8000 (drop 5600 (copy_buffers stream_16k_3 ! 0))
   \<and> info_out_buffer stream_16k_3 = info_out_buffer stream_16k_2 @ [packet 8000 1750]"
proof -
  have i: "input_buffers stream_16k_0 ! 0 = replicate 8000 1 @ replicate 5440 2 @ replicate 6560 3"
    by (simp add: stream_16k_0_def)
  have o1: "output_buffers stream_16k_1 ! 0 = replicate 8000 1"
    by (simp add: stream_16k_1_def)
  have s2: "stream_16k_2
       = stream_16k_1
           \<lparr>info_buffer := info_buffer stream_16k_1
                @ [packet 4000 2250, packet 4000 2500, packet 4000 2750],
            input_buffers := [input_buffers stream_16k_1 ! 0 @ replicate 12000 4]\<rparr>"
    by (simp add: stream_16k_1_def stream_16k_2_def replicate_add [symmetric])
  have w: "take 8000 (drop 5600 (copy_buffers stream_16k_3 ! 0)) = replicate 6560 3 @ replicate 1440 4"
    by (simp add: stream_16k_3_def)
  have o: "output_buffers stream_16k_3 ! 0
       = replicate 8160 1 @ replicate 5440 2 @ replicate 2400 3"
    by (simp add: stream_16k_3_def replicate_add [symmetric])
  have "(output_buffers stream_16k_3 ! 0) ! 8000 = 1"
    by (simp add: stream_16k_3_def nth_append)
  moreover have "(output_buffers stream_16k_2 ! 0 @ replicate 6560 3 @ replicate 1440 4) ! 8000 = 3"
    by (simp add: stream_16k_2_def nth_append)
  ultimately have n: "output_buffers stream_16k_3 ! 0
       \<noteq> output_buffers stream_16k_2 ! 0 @ replicate 6560 3 @ replicate 1440 4"
    by auto
  have p: "info_out_buffer stream_16k_3 = info_out_buffer stream_16k_2 @ [packet 8000 1750]"
    by (simp add: stream_16k_3_def stream_16k_2_def)
  have ov: "overlap_frames stream_16k_2 = 5600"
    by (simp add: stream_16k_2_def)
  from n have nw: "output_buffers stream_16k_3 ! 0
       \<noteq> output_buffers stream_16k_2 ! 0 @ take 8000 (drop 5600 (copy_buffers stream_16k_3 ! 0))"
    unfolding w .
  from i first_cycle_16k o1 s2 second_cycle_16k second_drain_16k ov w o nw p
  show ?thesis by (intro conjI)
qed

subsection \<open>C2: the packet infos and the queued samples\<close>

text \<open>
  C2, as amended. Write \<open>lag\<close> for the number of samples by which every channel's input
  queue is shorter than the sum of the frame counts in the info queue
  (\<open>queue_balance gf lag\<close>; the byte sizes differ by \<open>4 * lag\<close>, and all channels have the
  same size). A push keeps \<open>lag\<close>. A cycle after the first keeps \<open>lag\<close>. The first cycle
  (\<^verbatim>\<open>last_num_frames = 0\<close>) pops \<^verbatim>\<open>overlap_frames\<close> samples more than the infos it consumed
  account for, so it adds \<^verbatim>\<open>overlap_frames\<close> to \<open>lag\<close>. This holds while the frame counts
  queued sum to less than \<open>2 ^ 32\<close>, \<^verbatim>\<open>overlap_frames\<close> is at most \<^verbatim>\<open>frames\<close>, and \<^verbatim>\<open>frames\<close> is
  below \<open>2 ^ 62\<close>.
\<close>

theorem queue_balance_steps:
  assumes bal: "queue_balance gf lag"
    and sum: "sum_frames (info_buffer gf) < 2 ^ 32"
    and ov: "overlap_frames gf \<le> frames gf"
    and frm: "unat (frames gf) < 2 ^ 62"
  shows "(cleanstream_filter_audio_push gf audio = Inr gf1 \<longrightarrow> queue_balance gf1 lag) \<and>
    (process_audio_from_buffer gf skipped_inference duration = Inr gf2 \<longrightarrow>
       queue_balance gf2 (if 0 < last_num_frames gf then lag else lag + unat (overlap_frames gf)))"
proof (intro conjI impI)
  assume p: "cleanstream_filter_audio_push gf audio = Inr gf1"
  from push_result [OF p] bal show "queue_balance gf1 lag"
    by (auto simp: queue_balance_def sum_frames_append circlebuf_size_def sum_frames_def)
next
  assume run: "process_audio_from_buffer gf skipped_inference duration = Inr gf2"
  from process_audio_from_buffer_result [OF run] obtain g1 g2 num ts where
    sa: "segment_assemble gf = Inr (g1, num, ts)" and pb: "publish g1 num ts = Inr g2" and
    gf2: "gf2 = adapt_overlap g2 ((num * 1000) div sample_rate g2) skipped_inference duration"
    by blast
  note s = segment_assemble_result [OF sa]
  note p = publish_result [OF pb]
  from s have d: "drain_infos (frames gf - overlap_frames gf) (info_buffer gf) 0 0
                    = (info_buffer g1, num, ts)" by simp
  from drain_infos_sum [OF d] sum
  have sm: "unat num + sum_frames (info_buffer g1) = sum_frames (info_buffer gf)" by simp
  from drain_infos_window_fits [OF ov d] frm
  have fits: "unat num + unat (overlap_frames gf) < 2 ^ 62" by simp
  let ?lag = "if 0 < last_num_frames gf then lag else lag + unat (overlap_frames gf)"
  have "c < length (input_buffers gf2) \<and>
        4 * sum_frames (info_buffer gf2) = circlebuf_size (input_buffers gf2 ! c) + 4 * ?lag"
    if c: "c < channels gf" for c
  proof -
    from s c have a: "assemble_channel (last_num_frames gf) (overlap_frames gf) num
         (copy_buffers gf ! c) (input_buffers gf ! c) = Inr (copy_buffers g1 ! c, input_buffers g1 ! c)"
      and len: "c < length (input_buffers gf)"
      by simp_all
    from assemble_channel_length [OF a fits]
    have l: "length (input_buffers g1 ! c)
        + (if 0 < last_num_frames gf then unat num else unat num + unat (overlap_frames gf))
        = length (input_buffers gf ! c)" .
    from bal c have b: "4 * sum_frames (info_buffer gf)
        = circlebuf_size (input_buffers gf ! c) + 4 * lag"
      by (simp add: queue_balance_def)
    have bufs: "input_buffers gf2 = input_buffers g1" "info_buffer gf2 = info_buffer g1"
      using gf2 p by (simp_all add: adapt_overlap_buffers)
    from l b sm len s show ?thesis
      unfolding bufs by (auto simp: circlebuf_size_def split: if_splits)
  qed
  moreover have "channels gf2 = channels gf"
    using gf2 p s by (simp add: adapt_overlap_buffers)
  ultimately show "queue_balance gf2 ?lag"
    unfolding queue_balance_def by simp
qed

text \<open>The first cycle of \<open>stream_16k_0\<close> moves \<open>lag\<close> from 0 to 5440, and a push into
  \<open>stream_16k_0\<close> keeps it at 0.\<close>

theorem queue_balance_steps_witness:
  "queue_balance stream_16k_0 0
   \<and> sum_frames (info_buffer stream_16k_0) < 2 ^ 32
   \<and> overlap_frames stream_16k_0 \<le> frames stream_16k_0
   \<and> unat (frames stream_16k_0) < 2 ^ 62
   \<and> cleanstream_filter_audio_push stream_16k_0 (tone 2250)
       = Inr (stream_16k_0\<lparr>info_buffer := info_buffer stream_16k_0 @ [packet 4000 2250],
                input_buffers := [input_buffers stream_16k_0 ! 0 @ replicate 4000 4]\<rparr>)
   \<and> queue_balance
        (stream_16k_0\<lparr>info_buffer := info_buffer stream_16k_0 @ [packet 4000 2250],
                input_buffers := [input_buffers stream_16k_0 ! 0 @ replicate 4000 4]\<rparr>) 0
   \<and> process_audio_from_buffer stream_16k_0 False 100 = Inr stream_16k_1
   \<and> queue_balance stream_16k_1 5440"
proof -
  have b: "queue_balance stream_16k_0 0"
    by (simp add: queue_balance_def stream_16k_0_def sum_frames_def circlebuf_size_def packet_def)
  have s: "sum_frames (info_buffer stream_16k_0) < 2 ^ 32"
    by (simp add: stream_16k_0_def sum_frames_def packet_def)
  have o: "overlap_frames stream_16k_0 \<le> frames stream_16k_0"
    by (simp add: stream_16k_0_def)
  have f: "unat (frames stream_16k_0) < 2 ^ 62"
    by (simp add: stream_16k_0_def)
  have p: "cleanstream_filter_audio_push stream_16k_0 (tone 2250)
       = Inr (stream_16k_0\<lparr>info_buffer := info_buffer stream_16k_0 @ [packet 4000 2250],
                input_buffers := [input_buffers stream_16k_0 ! 0 @ replicate 4000 4]\<rparr>)"
    by (simp add: stream_16k_0_def tone_def cycle_defs)
  have l: "last_num_frames stream_16k_0 = 0" "unat (overlap_frames stream_16k_0) = 5440"
    by (simp_all add: stream_16k_0_def)
  from queue_balance_steps [OF b s o f, of "tone 2250" _ False 100 stream_16k_1] p first_cycle_16k l
  have "queue_balance
        (stream_16k_0\<lparr>info_buffer := info_buffer stream_16k_0 @ [packet 4000 2250],
                input_buffers := [input_buffers stream_16k_0 ! 0 @ replicate 4000 4]\<rparr>) 0
      \<and> queue_balance stream_16k_1 5440"
    by simp
  with b s o f p first_cycle_16k show ?thesis by simp
qed

text \<open>
  C2 as stated fails after the first window's drain: \<open>stream_16k_0\<close> holds 20000 frames in
  its infos and 20000 samples; after the cycle the infos hold 12000 frames and the queue
  6560 samples.
\<close>

theorem first_drain_breaks_frame_count:
  "4 * sum_frames (info_buffer stream_16k_0) = circlebuf_size (input_buffers stream_16k_0 ! 0)
   \<and> enough_input stream_16k_0
   \<and> process_audio_from_buffer stream_16k_0 False 100 = Inr stream_16k_1
   \<and> 4 * sum_frames (info_buffer stream_16k_1) = 48000
   \<and> circlebuf_size (input_buffers stream_16k_1 ! 0) = 26240
   \<and> 4 * sum_frames (info_buffer stream_16k_1) \<noteq> circlebuf_size (input_buffers stream_16k_1 ! 0)"
  using first_cycle_16k
  by (simp add: stream_16k_0_def stream_16k_1_def sum_frames_def circlebuf_size_def packet_def
      enough_input_def float_bytes_def)

subsection \<open>C3: the info that is pushed back\<close>

text \<open>
  C3 does not hold of the code. The info popped last is pushed back with
  \<^verbatim>\<open>circlebuf_push_back\<close>, that is behind every info still queued. In \<open>stream_16k_0\<close> the
  first drain pops the packets stamped 1000, 1250 and 1500 and pushes the last one back:
  it lands behind the packets stamped 1750 and 2000. The second drain pops the packet
  stamped 1750 first, the window it opens is stamped 1750, and the packet stamped 1500 is
  still queued behind three packets that arrived after it.
\<close>

theorem pushed_back_info_is_requeued_last:
  "drain_infos (frames stream_16k_0 - overlap_frames stream_16k_0) (info_buffer stream_16k_0) 0 0
     = ([packet 4000 1750, packet 4000 2000, packet 4000 1500], 8000, 1000)
   \<and> run stream_16k_0
        [Cycle False 100, Push (tone 2250), Push (tone 2500), Push (tone 2750), Cycle False 100]
       = Inr stream_16k_3
   \<and> info_out_buffer stream_16k_3 = [packet 8000 1000, packet 8000 1750]
   \<and> info_buffer stream_16k_3
       = [packet 4000 2250, packet 4000 2500, packet 4000 2750, packet 4000 1500]"
proof -
  have e0: "enough_input stream_16k_0"
    by (simp add: stream_16k_0_def enough_input_def float_bytes_def circlebuf_size_def)
  have e2: "enough_input stream_16k_2"
    by (simp add: stream_16k_2_def enough_input_def float_bytes_def circlebuf_size_def)
  have "run stream_16k_0
        [Cycle False 100, Push (tone 2250), Push (tone 2500), Push (tone 2750), Cycle False 100]
       = run stream_16k_1 [Push (tone 2250), Push (tone 2500), Push (tone 2750), Cycle False 100]"
    using e0 first_cycle_16k by (simp add: whisper_loop_iteration_def)
  also have "\<dots> = run stream_16k_2 [Cycle False 100]"
    by (simp add: stream_16k_1_def stream_16k_2_def tone_def cycle_defs)
  also have "\<dots> = Inr stream_16k_3"
    using e2 second_cycle_16k by (simp add: whisper_loop_iteration_def)
  finally show ?thesis
    using first_drain_16k by (simp add: stream_16k_3_def)
qed

subsection \<open>C9: the start timestamp of a window\<close>

text \<open>
  C9 does not hold of the code when the first info popped is stamped 0. The loop takes
  \<^verbatim>\<open>start_timestamp == 0\<close> to mean that no timestamp was recorded yet, so the next info
  overwrites it. In \<open>stream_from_zero\<close> the first info popped is stamped 0 and the second
  250; the window and its output packet are stamped 250.
\<close>

theorem start_timestamp_skips_zero:
  "hd (info_buffer stream_from_zero) = packet 4000 0
   \<and> drain_infos (frames stream_from_zero - overlap_frames stream_from_zero)
        (info_buffer stream_from_zero) 0 0
       = ([packet 4000 750, packet 4000 1000, packet 4000 500], 8000, 250)
   \<and> map_sum id info_out_buffer (process_audio_from_buffer stream_from_zero False 100)
       = Inr [packet 8000 250]"
  by (simp add: stream_from_zero_def stream_16k_0_def cycle_defs)

subsection \<open>C10: the length of the window and the capacity of the copy buffer\<close>

text \<open>
  C10 does not hold of the code. It holds while \<^verbatim>\<open>overlap_frames\<close> is at most \<^verbatim>\<open>frames\<close>
  (lemma \<open>segment_assemble_window_fits\<close>), and the controller can leave that range: a cycle
  that drains 10 ms of new audio caps \<^verbatim>\<open>overlap_ms\<close> at 7, and the next slow cycle computes
  \<^verbatim>\<open>overlap_ms - 10\<close> in unsigned arithmetic. In \<open>stream_48k_late\<close>, reached from the
  configured stream by \<open>stream_48k_events\<close>, \<^verbatim>\<open>overlap_frames\<close> exceeds \<^verbatim>\<open>frames\<close>, the worker's
  guard holds, the drain takes 80000 new frames, the window length
  \<^verbatim>\<open>num_new_frames_from_infos + overlap_frames\<close> exceeds the capacity of 48480 frames, and
  the copy of the overlap reads outside the copy buffer.
\<close>

theorem window_exceeds_capacity:
  "run stream_48k stream_48k_events = Inr stream_48k_late
   \<and> enough_input stream_48k_late
   \<and> frames stream_48k_late = 48480
   \<and> overlap_frames stream_48k_late = 18446744073709407
   \<and> drain_infos (frames stream_48k_late - overlap_frames stream_48k_late)
        (info_buffer stream_48k_late) 0 0 = ([], 80000, 1010)
   \<and> frames stream_48k_late < ucast (80000 :: u32) + overlap_frames stream_48k_late
   \<and> process_audio_from_buffer stream_48k_late False 900 = Inl Copy_buffer_out_of_bounds"
  using run_48k
  by (simp add: stream_48k_late_def cycle_defs)

section \<open>The claim about the overlap controller\<close>

subsection \<open>C4: how a cycle changes the overlap\<close>



section \<open>The claims about the signal gate and the classifier\<close>

subsection \<open>C5: filler classification\<close>




subsection \<open>C8: a transcript without tokens\<close>

text \<open>
  C8, as amended. With zero tokens the mean token probability is the quotient \<open>0 / 0\<close>,
  which is NaN and not 0. No fault is raised, and because NaN exceeds no threshold, the
  blank-marker branch cannot classify a zero-token transcript as filler: such a
  transcript is filler if and only if it contains a disfluency substring.
\<close>

theorem zero_tokens_give_nan:
  "sentence_p [] = NaN
   \<and> \<not> f32_less (Fin thr) (sentence_p [])
   \<and> run_whisper_inference False 0 transcript [] thr
       = (\<exists>m \<in> set disfluency_markers. contains_substring (map tolower transcript) m)"
proof -
  have n: "sentence_p [] = NaN"
    by (simp add: sentence_p_def f32_div_def)
  then show ?thesis
    by (simp add: run_whisper_inference_eq)
qed

theorem zero_tokens_give_nan_witness:
  "sentence_p [] = NaN
   \<and> \<not> run_whisper_inference False 0 ''[BLANK_AUDIO]'' [] 0.75
   \<and> \<not> run_whisper_inference False 0 ''[BLANK_AUDIO]'' [] (- 1)
   \<and> run_whisper_inference False 0 ''um.'' [] 0.75"
proof -
  have a: "\<not> run_whisper_inference False 0 ''[BLANK_AUDIO]'' [] 0.75"
    by (simp add: run_whisper_inference_def tolower_def sentence_p_def f32_div_def)
  have b: "\<not> run_whisper_inference False 0 ''[BLANK_AUDIO]'' [] (- 1)"
    by (simp add: run_whisper_inference_def tolower_def sentence_p_def f32_div_def)
  have c: "run_whisper_inference False 0 ''um.'' [] 0.75"
    by (simp add: run_whisper_inference_def tolower_def sentence_p_def f32_div_def)
  from zero_tokens_give_nan [of "0.75" "''um.''"] a b c show ?thesis by simp
qed

text \<open>C8 as stated fails: the probability of a zero-token transcript is not 0.\<close>

theorem zero_tokens_probability_is_not_zero:
  "sentence_p [] \<noteq> Fin 0"
  by (simp add: sentence_p_def f32_div_def)

subsection \<open>C6: voice activity detection under scaling\<close>




subsection \<open>C7: the word-boundary check\<close>

text \<open>
  C7 does not hold of the code. The reads stay within the window when it has at least two
  sub-windows (lemma \<open>word_boundary_simple_in_bounds\<close>), but the maximum that the code calls
  \<^verbatim>\<open>max_energy_in_middle\<close> is taken over \<^verbatim>\<open>pcm32f_size - n_samples_window\<close> samples from the
  end of the first sub-window, which is everything up to the end of the window, the last
  sub-window included. In \<open>silence_then_click\<close> the interior is silent and the last
  sub-window holds one sample of amplitude 1: both edge means (0 and 1/800) are below
  0.25 times the maximum the code computes, 1, so the code reports a boundary at 800,
  where the rule of the specification, with an interior maximum of 0, reports none.
\<close>

theorem word_boundary_counts_last_window:
  "length silence_then_click = 2400
   \<and> word_boundary_simple silence_then_click 2400 WHISPER_SAMPLE_RATE 0.25 = Some (Inr 800)
   \<and> window_mean silence_then_click 0 800 = 0
   \<and> window_mean silence_then_click 1600 800 = 1 / 800
   \<and> interior_peak silence_then_click 800 = 0
   \<and> word_boundary_as_specified silence_then_click WHISPER_SAMPLE_RATE 0.25 = 0"
proof -
  have l: "length silence_then_click = 2400"
    by (simp add: silence_then_click_def)
  have n: "(800 :: u64) = ucast ((WHISPER_SAMPLE_RATE * 50) div 1000)"
    by (simp add: WHISPER_SAMPLE_RATE_def)
  have w1: "window_mean silence_then_click 0 800 = 0"
    by (simp add: window_mean_def silence_then_click_def sum_list_replicate)
  have w2: "window_mean silence_then_click 1600 800 = 1 / 800"
    by (simp add: window_mean_def silence_then_click_def sum_list_replicate)
  have p: "interior_peak silence_then_click 800 = 0"
    by (simp add: interior_peak_def silence_then_click_def foldl_max_replicate)
  have m: "foldl max 0 (map abs (drop 800 silence_then_click)) = 1"
    by (simp add: silence_then_click_def foldl_max_replicate)
  have "word_boundary_simple silence_then_click 2400 WHISPER_SAMPLE_RATE 0.25 = Some (Inr 800)"
    using word_boundary_simple_in_bounds [OF n, of 2400 silence_then_click "0.25"] l w1 w2 m
    by simp
  moreover have "word_boundary_as_specified silence_then_click WHISPER_SAMPLE_RATE 0.25 = 0"
    using l w1 w2 p by (simp add: word_boundary_as_specified_def WHISPER_SAMPLE_RATE_def)
  ultimately show ?thesis using l w1 w2 p by simp
qed

end
